theory Spec2Isabelle
  imports Complex_Main
begin

section \<open>Memory model of the graph evaluator\<close>

text \<open>
  The evaluator of \<^verbatim>\<open>node.c\<close> and the operations of \<^verbatim>\<open>library.c\<close> work on three
  kinds of memory: the \<^verbatim>\<open>Node\<close> structures, the \<^verbatim>\<open>double\<close> buffers and the temporary
  array of input results of one \<^verbatim>\<open>run_node\<close> frame.

  \<^item> A \<^verbatim>\<open>double*\<close> is an optional address; \<open>None\<close> is the null pointer.
  \<^item> The buffers live in a heap, a partial map from addresses to the contents of the
    allocated block. An address outside the domain of the heap is not allocated
    (never allocated, or already freed).
  \<^item> A \<^verbatim>\<open>Node*\<close> is an address into a separate store of node structures. An address with
    no node (the null pointer among them) cannot be dereferenced.
  \<^item> Whatever C leaves undefined (a null or dangling dereference, a read or write
    beyond a block, freeing an address that is not allocated, signed overflow) is an
    \<open>error\<close> value: the model stops there.
  \<^item> The temporary array \<^verbatim>\<open>input_results\<close> is a HOL list local to the frame; its
    \<^verbatim>\<open>malloc\<close> is taken to succeed.
\<close>

type_synonym addr = nat
type_synonym ptr = "addr option"
type_synonym nid = nat

datatype error = NullPointer | InvalidPointer | OutOfBounds | InvalidFree | SignedOverflow

type_synonym 'd heap = "addr \<rightharpoonup> 'd list"

text \<open>
  The type \<^verbatim>\<open>double\<close> and its arithmetic are a parameter of the model: a type \<open>'d\<close>
  with the operations the source applies to doubles (\<^verbatim>\<open>+\<close>, \<^verbatim>\<open>-\<close>, \<^verbatim>\<open>*\<close>, the literal
  \<^verbatim>\<open>0.5\<close>, \<^verbatim>\<open>sin\<close> and \<^verbatim>\<open>cosh\<close> of \<^verbatim>\<open>math.h\<close>) and the value \<^verbatim>\<open>0.0\<close> that callers
  seed accumulators with. No algebraic law is assumed of them, so every theorem
  below holds for IEEE arithmetic as it does for the reals.
\<close>

record 'd arith =
  d_zero :: 'd
  d_half :: 'd
  d_add :: "'d \<Rightarrow> 'd \<Rightarrow> 'd"
  d_sub :: "'d \<Rightarrow> 'd \<Rightarrow> 'd"
  d_mul :: "'d \<Rightarrow> 'd \<Rightarrow> 'd"
  d_sin :: "'d \<Rightarrow> 'd"
  d_cosh :: "'d \<Rightarrow> 'd"

text \<open>
  \<^verbatim>\<open>struct Node\<close> of \<^verbatim>\<open>node.h\<close>. The arrays behind \<^verbatim>\<open>inputs\<close> and \<^verbatim>\<open>input_sizes\<close>
  are HOL lists; \<^verbatim>\<open>fcn\<close>, a pointer to a function
  \<^verbatim>\<open>double *(*)(double **, int *, int, double *)\<close>, is a function on the buffer heap
  that fails or returns the result pointer and the new heap. It is given the contents
  of the arrays \<^verbatim>\<open>lists\<close> and \<^verbatim>\<open>sizes\<close>: no operation of \<^verbatim>\<open>library.c\<close> writes to them.
\<close>

type_synonym 'd operation =
  "ptr list \<Rightarrow> int list \<Rightarrow> int \<Rightarrow> ptr \<Rightarrow> 'd heap \<Rightarrow> error + ptr \<times> 'd heap"

record 'd node =
  inputs :: "nid list"
  input_sizes :: "int list"
  input_count :: int
  fcn :: "'d operation"
  data :: ptr

text \<open>
  The state: the node structures, the buffers, and the log of the evaluator's calls
  of \<^verbatim>\<open>free\<close> on result buffers (the argument of each call, in order).
\<close>

record 'd state =
  nodes :: "nid \<rightharpoonup> 'd node"
  bufs :: "'d heap"
  free_calls :: "ptr list"

subsection \<open>Sequencing, array accesses and loops\<close>

definition ebind :: "error + 'a \<Rightarrow> ('a \<Rightarrow> error + 'b) \<Rightarrow> error + 'b" where
  "ebind m f = (case m of Inl e \<Rightarrow> Inl e | Inr x \<Rightarrow> f x)"

text \<open>\<open>idx xs i\<close> reads \<^verbatim>\<open>xs[i]\<close> from an array of pointers or of ints.\<close>

definition idx :: "'a list \<Rightarrow> nat \<Rightarrow> error + 'a" where
  "idx xs i = (if i < length xs then Inr (xs ! i) else Inl OutOfBounds)"

text \<open>\<open>rd h p j\<close> reads \<^verbatim>\<open>p[j]\<close> from a buffer, \<open>wr h p j v\<close> stores \<^verbatim>\<open>p[j] = v\<close>.\<close>

definition rd :: "'d heap \<Rightarrow> ptr \<Rightarrow> nat \<Rightarrow> error + 'd" where
  "rd h p j =
     (case p of
        None \<Rightarrow> Inl NullPointer
      | Some a \<Rightarrow>
         (case h a of
            None \<Rightarrow> Inl InvalidPointer
          | Some xs \<Rightarrow> if j < length xs then Inr (xs ! j) else Inl OutOfBounds))"

definition wr :: "'d heap \<Rightarrow> ptr \<Rightarrow> nat \<Rightarrow> 'd \<Rightarrow> error + 'd heap" where
  "wr h p j v =
     (case p of
        None \<Rightarrow> Inl NullPointer
      | Some a \<Rightarrow>
         (case h a of
            None \<Rightarrow> Inl InvalidPointer
          | Some xs \<Rightarrow> if j < length xs then Inr (h(a \<mapsto> xs[j := v])) else Inl OutOfBounds))"

text \<open>
  \<^verbatim>\<open>for (int i = 0; i < n; i++) body\<close> runs the body for \<open>i\<close> in \<open>[0..<nat n]\<close>, in
  order, and stops at the first failure; it does nothing when \<open>n \<le> 0\<close>.
\<close>

fun for_loop :: "nat list \<Rightarrow> (nat \<Rightarrow> 's \<Rightarrow> error + 's) \<Rightarrow> 's \<Rightarrow> error + 's" where
  "for_loop [] body s = Inr s"
| "for_loop (i # is) body s =
     (case body i s of Inl e \<Rightarrow> Inl e | Inr s' \<Rightarrow> for_loop is body s')"

subsection \<open>The operations of \<^verbatim>\<open>library.c\<close>\<close>

definition input_fcn :: "'d operation" where
  "input_fcn lsts sizes num_lists dat h = Inr (dat, h)"

definition sum_fcn :: "'d arith \<Rightarrow> 'd operation" where
  "sum_fcn ar lsts sizes num_lists dat h =
     ebind (idx sizes 0) (\<lambda>sz.
     ebind (for_loop [0..<nat num_lists] (\<lambda>i.
              for_loop [0..<nat sz] (\<lambda>j h.
                ebind (idx lsts i) (\<lambda>l.
                ebind (rd h l j) (\<lambda>x.
                ebind (rd h dat j) (\<lambda>y.
                wr h dat j (d_add ar y x)))))) h) (\<lambda>h'.
     Inr (dat, h')))"

definition product_fcn :: "'d arith \<Rightarrow> 'd operation" where
  "product_fcn ar lsts sizes num_lists dat h =
     ebind (idx sizes 0) (\<lambda>sz.
     ebind (for_loop [0..<nat num_lists] (\<lambda>i.
              for_loop [0..<nat sz] (\<lambda>j h.
                ebind (idx lsts i) (\<lambda>l.
                ebind (rd h l j) (\<lambda>x.
                ebind (rd h dat j) (\<lambda>y.
                wr h dat j (d_mul ar y x)))))) h) (\<lambda>h'.
     Inr (dat, h')))"

text \<open>
  \<^verbatim>\<open>sizes[0] - 1\<close> overflows when \<^verbatim>\<open>sizes[0]\<close> is \<^verbatim>\<open>INT_MIN\<close>. The summand is
  \<^verbatim>\<open>0.5 * (values[i] + values[i + 1]) * (bins[i + 1] - bins[i])\<close>, that is
  \<^verbatim>\<open>(0.5 * (...)) * (...)\<close>.
\<close>

definition integration_fcn :: "'d arith \<Rightarrow> 'd operation" where
  "integration_fcn ar lsts sizes num_lists dat h =
     ebind (idx lsts 0) (\<lambda>values.
     ebind (idx lsts 1) (\<lambda>bins.
     ebind (idx sizes 0) (\<lambda>sz.
     if sz \<le> - 2147483648 then Inl SignedOverflow
     else
     ebind (for_loop [0..<nat (sz - 1)] (\<lambda>i h.
              ebind (rd h values i) (\<lambda>v0.
              ebind (rd h values (i + 1)) (\<lambda>v1.
              ebind (rd h bins (i + 1)) (\<lambda>b1.
              ebind (rd h bins i) (\<lambda>b0.
              ebind (rd h dat 0) (\<lambda>y.
              wr h dat 0
                (d_add ar y
                   (d_mul ar (d_mul ar (d_half ar) (d_add ar v0 v1)) (d_sub ar b1 b0))))))))) h)
       (\<lambda>h'.
     Inr (dat, h')))))"

definition sin_fcn :: "'d arith \<Rightarrow> 'd operation" where
  "sin_fcn ar lsts sizes num_lists dat h =
     ebind (idx lsts 0) (\<lambda>input.
     ebind (idx sizes 0) (\<lambda>sz.
     ebind (for_loop [0..<nat sz] (\<lambda>i h.
              ebind (rd h input i) (\<lambda>x.
              wr h dat i (d_sin ar x))) h) (\<lambda>h'.
     Inr (dat, h'))))"

definition cosh_fcn :: "'d arith \<Rightarrow> 'd operation" where
  "cosh_fcn ar lsts sizes num_lists dat h =
     ebind (idx lsts 0) (\<lambda>input.
     ebind (idx sizes 0) (\<lambda>sz.
     ebind (for_loop [0..<nat sz] (\<lambda>i h.
              ebind (rd h input i) (\<lambda>x.
              wr h dat i (d_cosh ar x))) h) (\<lambda>h'.
     Inr (dat, h'))))"

subsection \<open>The evaluator of \<^verbatim>\<open>node.c\<close>\<close>

text \<open>
  \<^verbatim>\<open>free(p)\<close>: logged; nothing happens for the null pointer, an allocated block is
  removed from the heap, anything else is undefined.
\<close>

definition free_buf :: "ptr \<Rightarrow> 'd state \<Rightarrow> error + 'd state" where
  "free_buf p st =
     (case p of
        None \<Rightarrow> Inr (st\<lparr>free_calls := free_calls st @ [p]\<rparr>)
      | Some a \<Rightarrow>
         (case bufs st a of
            None \<Rightarrow> Inl InvalidFree
          | Some xs \<Rightarrow>
             Inr (st\<lparr>bufs := (bufs st)(a := None), free_calls := free_calls st @ [p]\<rparr>)))"

text \<open>
  The first loop of \<^verbatim>\<open>run_node\<close> (lines 7 to 9), over the indices still to visit:
  \<^verbatim>\<open>input_results[i] = run_node(node->inputs[i])\<close>. The recursive call is the
  parameter \<open>rec\<close>; it returns \<open>None\<close> when it does not return.
\<close>

fun eval_inputs ::
  "('d state \<Rightarrow> nid \<Rightarrow> (error + ptr \<times> 'd state) option) \<Rightarrow> 'd node \<Rightarrow> nat list \<Rightarrow> 'd state
     \<Rightarrow> (error + ptr list \<times> 'd state) option" where
  "eval_inputs rec nd [] st = Some (Inr ([], st))"
| "eval_inputs rec nd (i # is) st =
     (case idx (inputs nd) i of
        Inl e \<Rightarrow> Some (Inl e)
      | Inr c \<Rightarrow>
         (case rec st c of
            None \<Rightarrow> None
          | Some (Inl e) \<Rightarrow> Some (Inl e)
          | Some (Inr (r, st')) \<Rightarrow>
             (case eval_inputs rec nd is st' of
                None \<Rightarrow> None
              | Some (Inl e) \<Rightarrow> Some (Inl e)
              | Some (Inr (rs, st'')) \<Rightarrow> Some (Inr (r # rs, st'')))))"

text \<open>
  The body of the second loop (lines 13 to 15):
  \<^verbatim>\<open>if (!node->inputs[i]->data) free(input_results[i]);\<close>
\<close>

definition release_step :: "'d node \<Rightarrow> ptr list \<Rightarrow> nat \<Rightarrow> 'd state \<Rightarrow> error + 'd state" where
  "release_step nd input_results i st =
     ebind (idx (inputs nd) i) (\<lambda>c.
     case nodes st c of
       None \<Rightarrow> Inl InvalidPointer
     | Some cn \<Rightarrow>
        if data cn = None
        then ebind (idx input_results i) (\<lambda>r. free_buf r st)
        else Inr st)"

definition release_inputs :: "'d node \<Rightarrow> ptr list \<Rightarrow> 'd state \<Rightarrow> error + 'd state" where
  "release_inputs nd input_results st =
     for_loop [0..<nat (input_count nd)] (release_step nd input_results) st"

text \<open>
  \<^verbatim>\<open>run_node\<close>. The first argument bounds the depth of the recursion: a call that
  would need a deeper stack does not return (\<open>None\<close>).
\<close>

primrec run_node :: "nat \<Rightarrow> 'd state \<Rightarrow> nid \<Rightarrow> (error + ptr \<times> 'd state) option" where
  "run_node 0 st p = None"
| "run_node (Suc n) st p =
     (case nodes st p of
        None \<Rightarrow> Some (Inl InvalidPointer)
      | Some nd \<Rightarrow>
         (case eval_inputs (run_node n) nd [0..<nat (input_count nd)] st of
            None \<Rightarrow> None
          | Some (Inl e) \<Rightarrow> Some (Inl e)
          | Some (Inr (input_results, st1)) \<Rightarrow>
             Some (ebind (fcn nd input_results (input_sizes nd) (input_count nd) (data nd) (bufs st1))
                     (\<lambda>(result, h2).
                   ebind (release_inputs nd input_results (st1\<lparr>bufs := h2\<rparr>)) (\<lambda>st3.
                   Inr (result, st3))))))"

subsection \<open>Notions the claims are stated with\<close>

text \<open>
  The input pointers that the loops of \<^verbatim>\<open>run_node\<close> read: the first \<^verbatim>\<open>input_count\<close>
  entries of \<^verbatim>\<open>inputs\<close>.
\<close>

definition children :: "'d node \<Rightarrow> nid list" where
  "children nd = take (nat (input_count nd)) (inputs nd)"

text \<open>
  \<open>depth_le d ns p\<close>: the graph below \<open>p\<close> has depth at most \<open>d\<close>, that is, every chain
  of input pointers that starts at \<open>p\<close> has at most \<open>d\<close> nodes. A graph with a cycle
  has no depth.
\<close>

primrec depth_le :: "nat \<Rightarrow> (nid \<rightharpoonup> 'd node) \<Rightarrow> nid \<Rightarrow> bool" where
  "depth_le 0 ns p = False"
| "depth_le (Suc d) ns p =
     (case ns p of None \<Rightarrow> True | Some nd \<Rightarrow> list_all (depth_le d ns) (children nd))"

text \<open>The edges of the graph, from an input to the node that reads it.\<close>

definition edges :: "(nid \<rightharpoonup> 'd node) \<Rightarrow> (nid \<times> nid) set" where
  "edges ns = {(c, p). \<exists>nd. ns p = Some nd \<and> c \<in> set (children nd)}"

text \<open>\<open>null_data ns c\<close>: \<^verbatim>\<open>!c->data\<close>, for a pointer \<open>c\<close> to a node.\<close>

definition null_data :: "(nid \<rightharpoonup> 'd node) \<Rightarrow> nid \<Rightarrow> bool" where
  "null_data ns c = (case ns c of None \<Rightarrow> False | Some cn \<Rightarrow> data cn = None)"

text \<open>
  The ownership protocol for the result \<open>r\<close> that a node \<open>nd\<close> produces while the heap
  goes from \<open>h\<close> to \<open>h'\<close> (step 3 of the algorithm in the specification): either the
  result is the node's \<^verbatim>\<open>data\<close> and no block was allocated or freed, or the node has
  no \<^verbatim>\<open>data\<close> and the result is a block that was not allocated before and is now.
\<close>

definition result_ok :: "'d node \<Rightarrow> 'd heap \<Rightarrow> ptr \<Rightarrow> 'd heap \<Rightarrow> bool" where
  "result_ok nd h r h' \<longleftrightarrow>
     (r = data nd \<and> dom h' = dom h) \<or>
     (data nd = None \<and> (\<exists>a. r = Some a \<and> a \<notin> dom h \<and> dom h' = insert a (dom h)))"

text \<open>An operation keeps to the protocol when every call of it that returns does.\<close>

definition op_contract :: "'d node \<Rightarrow> bool" where
  "op_contract nd \<longleftrightarrow>
     (\<forall>rs h r h'. fcn nd rs (input_sizes nd) (input_count nd) (data nd) h = Inr (r, h') \<longrightarrow>
        result_ok nd h r h')"

text \<open>
  The addresses that the release loop passes to \<^verbatim>\<open>free\<close>, given the results \<open>rs\<close> of
  the inputs with the indices \<open>js\<close>: the non-null results of inputs without \<^verbatim>\<open>data\<close>.
\<close>

definition fresh_results :: "(nid \<rightharpoonup> 'd node) \<Rightarrow> 'd node \<Rightarrow> nat list \<Rightarrow> ptr list \<Rightarrow> addr set" where
  "fresh_results ns nd js rs =
     {a. \<exists>(j, r)\<in>set (zip js rs). null_data ns (inputs nd ! j) \<and> r = Some a}"

text \<open>The operations of \<^verbatim>\<open>library.c\<close>.\<close>

definition builtin :: "'d arith \<Rightarrow> 'd operation \<Rightarrow> bool" where
  "builtin ar f \<longleftrightarrow>
     f = input_fcn \<or> f = sum_fcn ar \<or> f = product_fcn ar \<or> f = integration_fcn ar \<or>
     f = sin_fcn ar \<or> f = cosh_fcn ar"

text \<open>The sum of a sequence of doubles, added up from \<^verbatim>\<open>0.0\<close> in the order given.\<close>

definition d_sum :: "'d arith \<Rightarrow> 'd list \<Rightarrow> 'd" where
  "d_sum ar xs = foldl (d_add ar) (d_zero ar) xs"

text \<open>
  The area of trapezoid \<open>i\<close> under the values \<open>v\<close> over the bin edges \<open>b\<close>:
  \<^verbatim>\<open>0.5 * (v[i] + v[i+1]) * (b[i+1] - b[i])\<close>.
\<close>

definition trapezoid :: "'d arith \<Rightarrow> 'd list \<Rightarrow> 'd list \<Rightarrow> nat \<Rightarrow> 'd" where
  "trapezoid ar v b i =
     d_mul ar (d_mul ar (d_half ar) (d_add ar (v ! i) (v ! (i + 1)))) (d_sub ar (b ! (i + 1)) (b ! i))"

subsection \<open>Example graphs\<close>

text \<open>Exact arithmetic on the reals, as one instance of the arithmetic parameter.\<close>

definition real_arith :: "real arith" where
  "real_arith =
     \<lparr>d_zero = 0, d_half = 1 / 2, d_add = (+), d_sub = (-), d_mul = (*),
      d_sin = sin, d_cosh = cosh\<rparr>"

text \<open>A leaf with the operation \<^verbatim>\<open>input_fcn\<close> and the literal payload \<open>d\<close>.\<close>

definition leaf_node :: "ptr \<Rightarrow> 'd node" where
  "leaf_node d = \<lparr>inputs = [], input_sizes = [], input_count = 0, fcn = input_fcn, data = d\<rparr>"

text \<open>One leaf that owns the buffer at address 10.\<close>

definition ex_leaf :: "real state" where
  "ex_leaf = \<lparr>nodes = [0 \<mapsto> leaf_node (Some 10)], bufs = [10 \<mapsto> [1, 2]], free_calls = []\<rparr>"

text \<open>One leaf without a buffer.\<close>

definition ex_null_leaf :: "real state" where
  "ex_null_leaf = \<lparr>nodes = [0 \<mapsto> leaf_node None], bufs = Map.empty, free_calls = []\<rparr>"

text \<open>
  A node without a buffer that passes on the (null) result of \<^verbatim>\<open>input_fcn\<close>, above a
  leaf that owns the buffer at address 10.
\<close>

definition ex_null_parent :: "real state" where
  "ex_null_parent =
     \<lparr>nodes = [0 \<mapsto> \<lparr>inputs = [1], input_sizes = [2], input_count = 1, fcn = input_fcn,
                        data = None\<rparr>,
               1 \<mapsto> leaf_node (Some 10)],
      bufs = [10 \<mapsto> [1, 2]], free_calls = []\<rparr>"

text \<open>
  A \<^verbatim>\<open>sum_fcn\<close> node that owns the accumulator at address 30, above two leaves that own
  the buffers at addresses 10 and 20.
\<close>

definition ex_sum :: "real state" where
  "ex_sum =
     \<lparr>nodes = [0 \<mapsto> \<lparr>inputs = [1, 2], input_sizes = [2, 2], input_count = 2,
                        fcn = sum_fcn real_arith, data = Some 30\<rparr>,
               1 \<mapsto> leaf_node (Some 10),
               2 \<mapsto> leaf_node (Some 20)],
      bufs = [10 \<mapsto> [1, 2], 20 \<mapsto> [3, 4], 30 \<mapsto> [0, 0]], free_calls = []\<rparr>"

text \<open>
  A node with \<^verbatim>\<open>input_fcn\<close> that owns the buffer at address 10 and has one input, a
  leaf without a buffer.
\<close>

definition ex_null_input :: "real state" where
  "ex_null_input =
     \<lparr>nodes = [0 \<mapsto> \<lparr>inputs = [1], input_sizes = [0], input_count = 1, fcn = input_fcn,
                        data = Some 10\<rparr>,
               1 \<mapsto> leaf_node None],
      bufs = [10 \<mapsto> [1, 2]], free_calls = []\<rparr>"

text \<open>
  An operation that is not in \<^verbatim>\<open>library.c\<close>, for a node without \<^verbatim>\<open>data\<close>: it allocates
  the block at address \<open>a\<close> for its result \<open>xs\<close>, and returns the null pointer when that
  address is taken.
\<close>

definition ex_alloc_fcn :: "addr \<Rightarrow> real list \<Rightarrow> real operation" where
  "ex_alloc_fcn a xs lsts sizes num_lists dat h =
     (case h a of None \<Rightarrow> Inr (Some a, h(a \<mapsto> xs)) | Some ys \<Rightarrow> Inr (None, h))"

text \<open>
  A \<^verbatim>\<open>sum_fcn\<close> node that owns the accumulator at address 30, above a leaf that owns
  the buffer at address 10 and a node without \<^verbatim>\<open>data\<close> that allocates its result at
  address 40.
\<close>

definition ex_fresh :: "real state" where
  "ex_fresh =
     \<lparr>nodes = [0 \<mapsto> \<lparr>inputs = [1, 2], input_sizes = [1, 1], input_count = 2,
                        fcn = sum_fcn real_arith, data = Some 30\<rparr>,
               1 \<mapsto> leaf_node (Some 10),
               2 \<mapsto> \<lparr>inputs = [], input_sizes = [], input_count = 0,
                        fcn = ex_alloc_fcn 40 [7], data = None\<rparr>],
      bufs = [10 \<mapsto> [5], 30 \<mapsto> [0]], free_calls = []\<rparr>"

text \<open>The state in which the evaluation of node 0 of \<open>ex_fresh\<close> ends.\<close>

definition ex_fresh_after :: "real state" where
  "ex_fresh_after =
     \<lparr>nodes = nodes ex_fresh, bufs = [10 \<mapsto> [5], 30 \<mapsto> [12]], free_calls = [Some 40]\<rparr>"

text \<open>
  A \<^verbatim>\<open>sin_fcn\<close> node and a \<^verbatim>\<open>cosh_fcn\<close> node, each with its own output buffer, above
  one leaf each; the graph \<^verbatim>\<open>sum(sin(a), cosh(b))\<close> without its root.
\<close>

definition ex_sin_cosh :: "real state" where
  "ex_sin_cosh =
     \<lparr>nodes = [0 \<mapsto> \<lparr>inputs = [2], input_sizes = [2], input_count = 1,
                        fcn = sin_fcn real_arith, data = Some 30\<rparr>,
               1 \<mapsto> \<lparr>inputs = [3], input_sizes = [1], input_count = 1,
                        fcn = cosh_fcn real_arith, data = Some 31\<rparr>,
               2 \<mapsto> leaf_node (Some 10),
               3 \<mapsto> leaf_node (Some 11)],
      bufs = [10 \<mapsto> [0, - pi], 11 \<mapsto> [0], 30 \<mapsto> [5, 5], 31 \<mapsto> [5]], free_calls = []\<rparr>"

text \<open>Heaps for the operations taken alone: the accumulator at 0, the inputs at 1 and 2.\<close>

definition ex_integration_heap :: "real heap" where
  "ex_integration_heap = [0 \<mapsto> [0], 1 \<mapsto> [0, 1, 0], 2 \<mapsto> [0, 1, 2]]"

definition ex_trapezoid_heap :: "real heap" where
  "ex_trapezoid_heap = [0 \<mapsto> [0], 1 \<mapsto> [1, 3], 2 \<mapsto> [0, 2]]"

definition ex_product_heap :: "real heap" where
  "ex_product_heap = [0 \<mapsto> [1, 1, 9], 1 \<mapsto> [2, 3], 2 \<mapsto> [5, - 7]]"

section \<open>General facts about loops and the evaluator\<close>

lemma for_loop_inv:
  assumes "\<And>i s s'. i \<in> set js \<Longrightarrow> P s \<Longrightarrow> body i s = Inr s' \<Longrightarrow> P s'"
    and "P s" and "for_loop js body s = Inr s'"
  shows "P s'"
  using assms
proof (induction js arbitrary: s)
  case Nil
  then show ?case by simp
next
  case (Cons j js)
  from Cons.prems(3) obtain s1 where b: "body j s = Inr s1" and r: "for_loop js body s1 = Inr s'"
    by (auto split: sum.splits)
  have s1: "P s1" using Cons.prems(1)[of j s s1] Cons.prems(2) b by simp
  show ?case
  proof (rule Cons.IH[OF _ s1 r])
    fix i s s' assume "i \<in> set js" "P s" "body i s = Inr s'"
    then show "P s'" using Cons.prems(1)[of i s s'] by simp
  qed
qed

lemma eval_inputs_inv:
  assumes "\<And>st c r st'. P st \<Longrightarrow> rec st c = Some (Inr (r, st')) \<Longrightarrow> P st'"
    and "P st" and "eval_inputs rec nd js st = Some (Inr (rs, st'))"
  shows "P st'"
  using assms(2,3)
proof (induction js arbitrary: st rs)
  case Nil
  then show ?case by simp
next
  case (Cons j js)
  from Cons.prems(2) obtain c r st1 rs1 where
    "idx (inputs nd) j = Inr c" and rc: "rec st c = Some (Inr (r, st1))"
    and rest: "eval_inputs rec nd js st1 = Some (Inr (rs1, st'))"
    by (auto split: sum.splits option.splits prod.splits)
  have "P st1" using assms(1) Cons.prems(1) rc by blast
  then show ?case using Cons.IH rest by blast
qed

lemma free_buf_nodes: "free_buf r st = Inr st' \<Longrightarrow> nodes st' = nodes st"
  by (auto simp: free_buf_def split: option.splits if_splits)

lemma release_step_nodes: "release_step nd rs i st = Inr st' \<Longrightarrow> nodes st' = nodes st"
  by (auto simp: release_step_def ebind_def dest: free_buf_nodes
      split: sum.splits option.splits if_splits)

lemma release_inputs_nodes: "release_inputs nd rs st = Inr st' \<Longrightarrow> nodes st' = nodes st"
  unfolding release_inputs_def
  by (rule for_loop_inv[where P = "\<lambda>s. nodes s = nodes st"]) (auto dest: release_step_nodes)

text \<open>A successful call of \<^verbatim>\<open>run_node\<close>, taken apart along lines 7 to 19.\<close>

lemma run_node_SucE:
  assumes "run_node (Suc n) st p = Some (Inr (r, st'))"
  obtains nd rs st1 h2 where "nodes st p = Some nd"
    and "eval_inputs (run_node n) nd [0..<nat (input_count nd)] st = Some (Inr (rs, st1))"
    and "fcn nd rs (input_sizes nd) (input_count nd) (data nd) (bufs st1) = Inr (r, h2)"
    and "release_inputs nd rs (st1\<lparr>bufs := h2\<rparr>) = Inr st'"
  using assms
  by (auto simp: ebind_def split: option.splits sum.splits prod.splits)

text \<open>No call of \<^verbatim>\<open>run_node\<close> writes a node structure.\<close>

lemma run_node_nodes: "run_node n st p = Some (Inr (r, st')) \<Longrightarrow> nodes st' = nodes st"
proof (induction n arbitrary: st p r st')
  case 0
  then show ?case by simp
next
  case (Suc n)
  from Suc.prems obtain nd rs st1 h2 where
    ev: "eval_inputs (run_node n) nd [0..<nat (input_count nd)] st = Some (Inr (rs, st1))"
    and rel: "release_inputs nd rs (st1\<lparr>bufs := h2\<rparr>) = Inr st'"
    by (rule run_node_SucE)
  have "nodes st1 = nodes st"
    by (rule eval_inputs_inv[where P = "\<lambda>s. nodes s = nodes st", OF _ _ ev]) (auto dest: Suc.IH)
  then show ?case using release_inputs_nodes[OF rel] by simp
qed

subsection \<open>Termination\<close>

lemma eval_inputs_mono:
  assumes "\<And>st c y. rec st c = Some y \<Longrightarrow> rec' st c = Some y"
    and "eval_inputs rec nd js st = Some y"
  shows "eval_inputs rec' nd js st = Some y"
  using assms(2)
proof (induction js arbitrary: st y)
  case Nil
  then show ?case by simp
next
  case (Cons j js)
  show ?case
  proof (cases "idx (inputs nd) j")
    case (Inl e)
    then show ?thesis using Cons.prems by simp
  next
    case (Inr c)
    show ?thesis
    proof (cases "rec st c")
      case None
      then show ?thesis using Cons.prems Inr by simp
    next
      case (Some res)
      then have r': "rec' st c = Some res" by (rule assms(1))
      show ?thesis
      proof (cases res)
        case (Inl e)
        then show ?thesis using Cons.prems Inr Some r' by simp
      next
        case (Inr rs1)
        obtain r st1 where rs1: "rs1 = (r, st1)" by (cases rs1)
        show ?thesis
        proof (cases "eval_inputs rec nd js st1")
          case None
          then show ?thesis using Cons.prems \<open>idx (inputs nd) j = Inr c\<close> Some Inr rs1 by simp
        next
          case (Some z)
          then have "eval_inputs rec' nd js st1 = Some z" by (rule Cons.IH)
          then show ?thesis
            using Cons.prems \<open>idx (inputs nd) j = Inr c\<close> \<open>rec st c = Some res\<close> r' Inr rs1 Some
            by simp
        qed
      qed
    qed
  qed
qed

lemma run_node_Suc_mono: "run_node n st p = Some y \<Longrightarrow> run_node (Suc n) st p = Some y"
proof (induction n arbitrary: st p y)
  case 0
  then show ?case by simp
next
  case (Suc n)
  show ?case
  proof (cases "nodes st p")
    case None
    then show ?thesis using Suc.prems by simp
  next
    case (Some nd)
    show ?thesis
    proof (cases "eval_inputs (run_node n) nd [0..<nat (input_count nd)] st")
      case None
      then show ?thesis using Suc.prems Some by simp
    next
      case ev: (Some z)
      have "eval_inputs (run_node (Suc n)) nd [0..<nat (input_count nd)] st = Some z"
        by (rule eval_inputs_mono[OF _ ev]) (rule Suc.IH)
      then show ?thesis using Suc.prems Some ev by simp
    qed
  qed
qed

lemma run_node_mono:
  assumes "n \<le> m" and "run_node n st p = Some y"
  shows "run_node m st p = Some y"
  using assms
proof (induction m rule: dec_induct)
  case base
  then show ?case .
next
  case (step k)
  then show ?case by (blast intro: run_node_Suc_mono)
qed

lemma eval_inputs_returns:
  assumes ret: "\<And>st c. nodes st = N \<Longrightarrow> c \<in> C \<Longrightarrow> rec st c \<noteq> None"
    and pres: "\<And>st c r st'. nodes st = N \<Longrightarrow> rec st c = Some (Inr (r, st')) \<Longrightarrow> nodes st' = N"
    and "nodes st = N" and "\<forall>j\<in>set js. j < length (inputs nd) \<longrightarrow> inputs nd ! j \<in> C"
  shows "eval_inputs rec nd js st \<noteq> None"
  using assms(3,4)
proof (induction js arbitrary: st)
  case Nil
  then show ?case by simp
next
  case (Cons j js)
  show ?case
  proof (cases "j < length (inputs nd)")
    case False
    then show ?thesis by (simp add: idx_def)
  next
    case True
    then have c: "inputs nd ! j \<in> C" using Cons.prems(2) by simp
    from ret[OF Cons.prems(1) c] obtain res where res: "rec st (inputs nd ! j) = Some res" by blast
    show ?thesis
    proof (cases res)
      case (Inl e)
      then show ?thesis using True res by (simp add: idx_def)
    next
      case (Inr rs1)
      obtain r st1 where rs1: "rs1 = (r, st1)" by (cases rs1)
      have "nodes st1 = N" using pres[OF Cons.prems(1)] res Inr rs1 by simp
      then have "eval_inputs rec nd js st1 \<noteq> None" using Cons.IH Cons.prems(2) by simp
      then show ?thesis using True res Inr rs1 by (auto simp: idx_def split: sum.splits)
    qed
  qed
qed

lemma depth_le_returns:
  fixes st :: "'d state"
  shows "depth_le d (nodes st) p \<Longrightarrow> run_node d st p \<noteq> None"
proof (induction d arbitrary: st p)
  case 0
  then show ?case by simp
next
  case (Suc d)
  show ?case
  proof (cases "nodes st p")
    case None
    then show ?thesis by simp
  next
    case (Some nd)
    with Suc.prems have ch: "\<forall>c\<in>set (children nd). depth_le d (nodes st) c"
      by (simp add: list_all_iff)
    have "eval_inputs (run_node d) nd [0..<nat (input_count nd)] st \<noteq> None"
    proof (rule eval_inputs_returns[where N = "nodes st" and C = "set (children nd)"])
      fix s :: "'d state" and c assume "nodes s = nodes st" "c \<in> set (children nd)"
      then show "run_node d s c \<noteq> None" using Suc.IH[of s c] ch by simp
    next
      fix s s' :: "'d state" and c r assume "nodes s = nodes st" "run_node d s c = Some (Inr (r, s'))"
      then show "nodes s' = nodes st" using run_node_nodes by metis
    next
      show "\<forall>j\<in>set [0..<nat (input_count nd)]. j < length (inputs nd) \<longrightarrow> inputs nd ! j \<in> set (children nd)"
        by (auto simp: children_def in_set_conv_nth intro!: exI)
    qed simp
    then show ?thesis using Some by (auto split: sum.splits prod.splits)
  qed
qed

lemma depth_le_Suc: "depth_le d ns p \<Longrightarrow> depth_le (Suc d) ns p"
proof (induction d arbitrary: p)
  case 0
  then show ?case by simp
next
  case (Suc d)
  from Suc.prems have "case ns p of None \<Rightarrow> True | Some nd \<Rightarrow> list_all (depth_le d ns) (children nd)"
    by simp
  then have "case ns p of None \<Rightarrow> True | Some nd \<Rightarrow> list_all (depth_le (Suc d) ns) (children nd)"
    using Suc.IH by (auto simp del: depth_le.simps simp: list_all_iff split: option.splits)
  then show ?case by (simp only: depth_le.simps)
qed

lemma depth_le_mono:
  assumes "d \<le> e" and "depth_le d ns p"
  shows "depth_le e ns p"
  using assms
proof (induction e rule: dec_induct)
  case base
  then show ?case .
next
  case (step k)
  then show ?case by (blast intro: depth_le_Suc)
qed

lemma depth_le_list: "\<forall>c\<in>set cs. \<exists>d. depth_le d ns c \<Longrightarrow> \<exists>d. \<forall>c\<in>set cs. depth_le d ns c"
proof (induction cs)
  case Nil
  then show ?case by simp
next
  case (Cons c cs)
  then obtain d1 d2 where "depth_le d1 ns c" "\<forall>c\<in>set cs. depth_le d2 ns c" by auto
  then have "\<forall>x\<in>set (c # cs). depth_le (max d1 d2) ns x"
    by (auto intro: depth_le_mono[of d1 "max d1 d2"] depth_le_mono[of d2 "max d1 d2"])
  then show ?case by blast
qed

lemma finite_edges: "finite (dom ns) \<Longrightarrow> finite (edges ns)"
proof -
  assume f: "finite (dom ns)"
  have "edges ns \<subseteq> (\<Union>p\<in>dom ns. set (children (the (ns p))) \<times> {p})"
    by (auto simp: edges_def)
  moreover have "finite (\<Union>p\<in>dom ns. set (children (the (ns p))) \<times> {p})"
    using f by simp
  ultimately show ?thesis by (rule finite_subset)
qed

lemma acyclic_depth: 
  assumes "finite (dom ns)" "acyclic (edges ns)"
  shows "\<exists>d. depth_le d ns p"
proof -
  have "wf (edges ns)" by (rule finite_acyclic_wf[OF finite_edges[OF assms(1)] assms(2)])
  then show ?thesis
  proof (induction p rule: wf_induct_rule)
    case (less p)
    show ?case
    proof (cases "ns p")
      case None
      then have "depth_le (Suc 0) ns p" by simp
      then show ?thesis by blast
    next
      case (Some nd)
      have "\<forall>c\<in>set (children nd). \<exists>d. depth_le d ns c"
        using less Some by (auto simp: edges_def)
      then obtain d where "\<forall>c\<in>set (children nd). depth_le d ns c"
        using depth_le_list by blast
      then have "depth_le (Suc d) ns p" using Some by (simp add: list_all_iff)
      then show ?thesis by blast
    qed
  qed
qed

subsection \<open>The release loop\<close>

lemma release_step_effect:
  assumes "release_step nd rs j st = Inr s1"
  shows "nodes s1 = nodes st \<and>
     (if null_data (nodes st) (inputs nd ! j)
      then free_calls s1 = free_calls st @ [rs ! j] \<and> bufs s1 = bufs st |` (- {a. rs ! j = Some a})
      else s1 = st)"
  using assms
  by (auto simp: release_step_def ebind_def idx_def null_data_def free_buf_def restrict_map_def
      split: if_splits option.splits)

lemma release_loop_effect:
  assumes "for_loop js (release_step nd rs) st = Inr st'"
  shows "nodes st' = nodes st \<and>
     free_calls st' = free_calls st @ map (\<lambda>i. rs ! i) (filter (\<lambda>i. null_data (nodes st) (inputs nd ! i)) js) \<and>
     bufs st' = bufs st |` (- {a. Some a \<in> set (map (\<lambda>i. rs ! i) (filter (\<lambda>i. null_data (nodes st) (inputs nd ! i)) js))})"
  using assms
proof (induction js arbitrary: st)
  case Nil
  then show ?case by simp
next
  case (Cons j js)
  from Cons.prems obtain s1 where st: "release_step nd rs j st = Inr s1"
    and rest: "for_loop js (release_step nd rs) s1 = Inr st'"
    by (auto split: sum.splits)
  note e = release_step_effect[OF st]
  note ih = Cons.IH[OF rest]
  show ?case
  proof (cases "null_data (nodes st) (inputs nd ! j)")
    case False
    then show ?thesis using e ih by simp
  next
    case True
    have "bufs st' = (bufs st |` (- {a. rs ! j = Some a})) |`
        (- {a. Some a \<in> set (map (\<lambda>i. rs ! i) (filter (\<lambda>i. null_data (nodes st) (inputs nd ! i)) js))})"
      using e ih True by simp
    also have "\<dots> = bufs st |` (- {a. Some a \<in> set (map (\<lambda>i. rs ! i) (filter (\<lambda>i. null_data (nodes st) (inputs nd ! i)) (j # js)))})"
      using True by (auto simp: restrict_map_def fun_eq_iff)
    finally show ?thesis using e ih True by simp
  qed
qed

lemma release_inputs_effect:
  assumes "release_inputs nd rs st = Inr st'"
  shows "nodes st' = nodes st \<and>
     free_calls st' = free_calls st @ map (\<lambda>i. rs ! i) (filter (\<lambda>i. null_data (nodes st) (inputs nd ! i)) [0..<nat (input_count nd)]) \<and>
     bufs st' = bufs st |` (- {a. Some a \<in> set (map (\<lambda>i. rs ! i) (filter (\<lambda>i. null_data (nodes st) (inputs nd ! i)) [0..<nat (input_count nd)]))})"
  using assms unfolding release_inputs_def by (rule release_loop_effect)

lemma release_inputs_dom: "release_inputs nd rs st = Inr st' \<Longrightarrow> dom (bufs st') \<subseteq> dom (bufs st)"
  by (drule release_inputs_effect) (auto simp: restrict_map_def split: if_splits)


subsection \<open>The operations return \<^verbatim>\<open>data\<close>\<close>

lemma wr_dom: "wr h p j v = Inr h' \<Longrightarrow> dom h' = dom h"
  by (auto simp: wr_def split: option.splits if_splits)

lemma for_loop_dom:
  assumes "\<And>i h h'. body i h = Inr h' \<Longrightarrow> dom h' = dom h"
    and "for_loop js body h = Inr h'"
  shows "dom h' = dom h"
proof (rule for_loop_inv[where P = "\<lambda>s. dom s = dom h", OF _ _ assms(2)])
  fix i s s' assume "dom s = dom h" "body i s = Inr s'"
  then show "dom s' = dom h" using assms(1)[of i s s'] by simp
qed simp

lemma ebind_InrE:
  assumes "ebind m f = Inr y"
  obtains x where "m = Inr x" and "f x = Inr y"
  using assms by (cases m) (auto simp: ebind_def)

lemma input_fcn_returns_data:
  "input_fcn ls sz k d h = Inr (r, h') \<Longrightarrow> r = d \<and> dom h' = dom h"
  by (simp add: input_fcn_def)

lemma sum_fcn_returns_data:
  assumes "sum_fcn ar ls sz k d h = Inr (r, h')"
  shows "r = d \<and> dom h' = dom h"
proof -
  from assms obtain s hh where
    loop: "for_loop [0..<nat k] (\<lambda>i. for_loop [0..<nat s] (\<lambda>j h.
                ebind (idx ls i) (\<lambda>l. ebind (rd h l j) (\<lambda>x. ebind (rd h d j) (\<lambda>y.
                wr h d j (d_add ar y x)))))) h = Inr hh"
    and res: "(r, h') = (d, hh)"
    unfolding sum_fcn_def by (auto elim!: ebind_InrE)
  have "dom hh = dom h"
    by (rule for_loop_dom[OF _ loop], erule for_loop_dom[rotated]) (elim ebind_InrE, erule wr_dom)
  then show ?thesis using res by simp
qed

lemma product_fcn_returns_data:
  assumes "product_fcn ar ls sz k d h = Inr (r, h')"
  shows "r = d \<and> dom h' = dom h"
proof -
  from assms obtain s hh where
    loop: "for_loop [0..<nat k] (\<lambda>i. for_loop [0..<nat s] (\<lambda>j h.
                ebind (idx ls i) (\<lambda>l. ebind (rd h l j) (\<lambda>x. ebind (rd h d j) (\<lambda>y.
                wr h d j (d_mul ar y x)))))) h = Inr hh"
    and res: "(r, h') = (d, hh)"
    unfolding product_fcn_def by (auto elim!: ebind_InrE)
  have "dom hh = dom h"
    by (rule for_loop_dom[OF _ loop], erule for_loop_dom[rotated]) (elim ebind_InrE, erule wr_dom)
  then show ?thesis using res by simp
qed

lemma integration_fcn_returns_data:
  assumes "integration_fcn ar ls sz k d h = Inr (r, h')"
  shows "r = d \<and> dom h' = dom h"
proof -
  from assms obtain s v b hh where
    loop: "for_loop [0..<nat (s - 1)] (\<lambda>i h.
              ebind (rd h v i) (\<lambda>v0.
              ebind (rd h v (i + 1)) (\<lambda>v1.
              ebind (rd h b (i + 1)) (\<lambda>b1.
              ebind (rd h b i) (\<lambda>b0.
              ebind (rd h d 0) (\<lambda>y.
              wr h d 0
                (d_add ar y
                   (d_mul ar (d_mul ar (d_half ar) (d_add ar v0 v1)) (d_sub ar b1 b0))))))))) h = Inr hh"
    and res: "(r, h') = (d, hh)"
    unfolding integration_fcn_def
    by (auto elim!: ebind_InrE split: if_splits)
  have "dom hh = dom h"
    by (rule for_loop_dom[OF _ loop]) (elim ebind_InrE, erule wr_dom)
  then show ?thesis using res by simp
qed

lemma sin_fcn_returns_data:
  assumes "sin_fcn ar ls sz k d h = Inr (r, h')"
  shows "r = d \<and> dom h' = dom h"
proof -
  from assms obtain s inp hh where
    loop: "for_loop [0..<nat s] (\<lambda>i h. ebind (rd h inp i) (\<lambda>x. wr h d i (d_sin ar x))) h = Inr hh"
    and res: "(r, h') = (d, hh)"
    unfolding sin_fcn_def by (auto elim!: ebind_InrE)
  have "dom hh = dom h"
    by (rule for_loop_dom[OF _ loop]) (elim ebind_InrE, erule wr_dom)
  then show ?thesis using res by simp
qed

lemma cosh_fcn_returns_data:
  assumes "cosh_fcn ar ls sz k d h = Inr (r, h')"
  shows "r = d \<and> dom h' = dom h"
proof -
  from assms obtain s inp hh where
    loop: "for_loop [0..<nat s] (\<lambda>i h. ebind (rd h inp i) (\<lambda>x. wr h d i (d_cosh ar x))) h = Inr hh"
    and res: "(r, h') = (d, hh)"
    unfolding cosh_fcn_def by (auto elim!: ebind_InrE)
  have "dom hh = dom h"
    by (rule for_loop_dom[OF _ loop]) (elim ebind_InrE, erule wr_dom)
  then show ?thesis using res by simp
qed

lemma builtin_returns_data:
  assumes "builtin ar f" and "f ls sz k d h = Inr (r, h')"
  shows "r = d \<and> dom h' = dom h"
  using assms unfolding builtin_def
  by (metis input_fcn_returns_data sum_fcn_returns_data product_fcn_returns_data
      integration_fcn_returns_data sin_fcn_returns_data cosh_fcn_returns_data)

text \<open>So every operation of \<^verbatim>\<open>library.c\<close> keeps to the ownership protocol.\<close>

lemma builtin_op_contract: "builtin ar (fcn nd) \<Longrightarrow> op_contract nd"
  unfolding op_contract_def result_ok_def using builtin_returns_data by blast

subsection \<open>Graphs of library operations\<close>

lemma eval_inputs_track:
  assumes step: "\<And>s c r s'. P s \<Longrightarrow> rec s c = Some (Inr (r, s')) \<Longrightarrow> P s' \<and> Q c r"
    and "P st" and "eval_inputs rec nd js st = Some (Inr (rs, st'))"
  shows "P st' \<and> length rs = length js \<and>
     (\<forall>i<length js. js ! i < length (inputs nd) \<and> Q (inputs nd ! (js ! i)) (rs ! i))"
  using assms(2,3)
proof (induction js arbitrary: st rs)
  case Nil
  then show ?case by simp
next
  case (Cons j js)
  from Cons.prems(2) obtain r st1 rs1 where
    j: "j < length (inputs nd)" and rc: "rec st (inputs nd ! j) = Some (Inr (r, st1))"
    and rest: "eval_inputs rec nd js st1 = Some (Inr (rs1, st'))" and rs: "rs = r # rs1"
    by (auto simp: idx_def split: sum.splits option.splits prod.splits if_splits)
  from step[OF Cons.prems(1) rc] have p1: "P st1" and q: "Q (inputs nd ! j) r" by simp_all
  from Cons.IH[OF p1 rest] have ih: "P st'" "length rs1 = length js"
    "\<forall>i<length js. js ! i < length (inputs nd) \<and> Q (inputs nd ! (js ! i)) (rs1 ! i)" by simp_all
  have "\<forall>i<length (j # js). (j # js) ! i < length (inputs nd) \<and> Q (inputs nd ! ((j # js) ! i)) (rs ! i)"
  proof (intro allI impI)
    fix i assume "i < length (j # js)"
    then show "(j # js) ! i < length (inputs nd) \<and> Q (inputs nd ! ((j # js) ! i)) (rs ! i)"
      using j q ih(3) rs by (cases i) auto
  qed
  then show ?case using ih(1,2) rs by simp
qed

lemma builtin_run:
  fixes st :: "'d state"
  assumes B: "\<forall>q nd. N q = Some nd \<longrightarrow> builtin ar (fcn nd)"
  shows "nodes st = N \<Longrightarrow> run_node n st p = Some (Inr (r, st')) \<Longrightarrow>
     (\<exists>nd. N p = Some nd \<and> r = data nd) \<and> nodes st' = N \<and> dom (bufs st') = dom (bufs st) \<and>
     (\<exists>fs. free_calls st' = free_calls st @ fs \<and> set fs \<subseteq> {None})"
proof (induction n arbitrary: st p r st')
  case 0
  then show ?case by simp
next
  case (Suc n)
  from Suc.prems(2) obtain nd rs st1 h2 where
    nd: "nodes st p = Some nd"
    and ev: "eval_inputs (run_node n) nd [0..<nat (input_count nd)] st = Some (Inr (rs, st1))"
    and op: "fcn nd rs (input_sizes nd) (input_count nd) (data nd) (bufs st1) = Inr (r, h2)"
    and rel: "release_inputs nd rs (st1\<lparr>bufs := h2\<rparr>) = Inr st'"
    by (rule run_node_SucE)
  let ?P = "\<lambda>s :: 'd state. nodes s = N \<and> dom (bufs s) = dom (bufs st) \<and>
     (\<exists>fs. free_calls s = free_calls st @ fs \<and> set fs \<subseteq> {None})"
  let ?Q = "\<lambda>c r. \<exists>cn. N c = Some cn \<and> r = data cn"
  have tr: "?P st1 \<and> length rs = length [0..<nat (input_count nd)] \<and>
     (\<forall>i<length [0..<nat (input_count nd)]. [0..<nat (input_count nd)] ! i < length (inputs nd) \<and>
         ?Q (inputs nd ! ([0..<nat (input_count nd)] ! i)) (rs ! i))"
  proof (rule eval_inputs_track[where P = ?P and Q = ?Q, OF _ _ ev])
    fix s s' :: "'d state" and c r
    assume p: "?P s" and rc: "run_node n s c = Some (Inr (r, s'))"
    from p have "nodes s = N" by simp
    from Suc.IH[OF this rc] p show "?P s' \<and> ?Q c r" by auto
  next
    show "?P st" using Suc.prems(1) by simp
  qed
  then have st1: "nodes st1 = N" "dom (bufs st1) = dom (bufs st)"
    and fs1: "\<exists>fs. free_calls st1 = free_calls st @ fs \<and> set fs \<subseteq> {None}"
    and q: "\<forall>i<nat (input_count nd). \<exists>cn. N (inputs nd ! i) = Some cn \<and> rs ! i = data cn"
    by simp_all
  from B nd Suc.prems(1) have "builtin ar (fcn nd)" by blast
  from builtin_returns_data[OF this op] have r: "r = data nd" and h2: "dom h2 = dom (bufs st1)"
    by simp_all
  let ?F = "map (\<lambda>i. rs ! i) (filter (\<lambda>i. null_data N (inputs nd ! i)) [0..<nat (input_count nd)])"
  from release_inputs_effect[OF rel] st1(1)
  have e: "nodes st' = N" "free_calls st' = free_calls st1 @ ?F" "bufs st' = h2 |` (- {a. Some a \<in> set ?F})"
    by simp_all
  have F: "set ?F \<subseteq> {None}"
    using q by (auto simp: null_data_def split: option.splits)
  then have "{a. Some a \<in> set ?F} = {}" by auto
  then have "bufs st' = h2" using e(3) by (simp add: restrict_map_def)
  moreover obtain fs where "free_calls st1 = free_calls st @ fs" "set fs \<subseteq> {None}" using fs1 by blast
  then have "free_calls st' = free_calls st @ (fs @ ?F) \<and> set (fs @ ?F) \<subseteq> {None}"
    using e(2) F by simp
  then have "\<exists>fs. free_calls st' = free_calls st @ fs \<and> set fs \<subseteq> {None}" by blast
  ultimately show ?case using nd Suc.prems(1) r e(1) h2 st1(2) by simp
qed

subsection \<open>The ownership protocol\<close>

lemma fresh_results_Cons:
  "fresh_results ns nd (j # js) (r # rs) =
     {a. null_data ns (inputs nd ! j) \<and> r = Some a} \<union> fresh_results ns nd js rs"
  by (auto simp: fresh_results_def)

lemma fresh_results_upt:
  assumes "length rs = k"
  shows "fresh_results ns nd [0..<k] rs =
     {a. Some a \<in> set (map (\<lambda>i. rs ! i) (filter (\<lambda>i. null_data ns (inputs nd ! i)) [0..<k]))}"
  using assms by (auto simp: fresh_results_def set_zip)

lemma eval_inputs_contract:
  fixes st :: "'d state"
  assumes step: "\<And>(s::'d state) c r s'. nodes s = N \<Longrightarrow> rec s c = Some (Inr (r, s')) \<Longrightarrow>
        nodes s' = N \<and> (\<exists>cn. N c = Some cn \<and> result_ok cn (bufs s) r (bufs s')) \<and>
        (\<exists>fs. free_calls s' = free_calls s @ fs \<and> (\<forall>a. Some a \<in> set fs \<longrightarrow> a \<notin> dom (bufs s)))"
    and "nodes st = N" and "eval_inputs rec nd js st = Some (Inr (rs, st'))"
  shows "nodes st' = N \<and> length rs = length js \<and>
     dom (bufs st') = dom (bufs st) \<union> fresh_results N nd js rs \<and>
     fresh_results N nd js rs \<inter> dom (bufs st) = {} \<and>
     (\<exists>fs. free_calls st' = free_calls st @ fs \<and> (\<forall>a. Some a \<in> set fs \<longrightarrow> a \<notin> dom (bufs st)))"
  using assms(2,3)
proof (induction js arbitrary: st rs)
  case Nil
  then show ?case by (simp add: fresh_results_def)
next
  case (Cons j js)
  from Cons.prems(2) obtain r st1 rs1 where
    j: "j < length (inputs nd)" and rc: "rec st (inputs nd ! j) = Some (Inr (r, st1))"
    and rest: "eval_inputs rec nd js st1 = Some (Inr (rs1, st'))" and rs: "rs = r # rs1"
    by (auto simp: idx_def split: sum.splits option.splits prod.splits if_splits)
  from step[OF Cons.prems(1) rc] obtain cn fs0 where
    n1: "nodes st1 = N" and cn: "N (inputs nd ! j) = Some cn"
    and ok: "result_ok cn (bufs st) r (bufs st1)"
    and fs0: "free_calls st1 = free_calls st @ fs0" "\<forall>a. Some a \<in> set fs0 \<longrightarrow> a \<notin> dom (bufs st)"
    by blast
  from Cons.IH[OF n1 rest] obtain fs1 where
    ih: "nodes st' = N" "length rs1 = length js"
      "dom (bufs st') = dom (bufs st1) \<union> fresh_results N nd js rs1"
      "fresh_results N nd js rs1 \<inter> dom (bufs st1) = {}"
    and fs1: "free_calls st' = free_calls st1 @ fs1" "\<forall>a. Some a \<in> set fs1 \<longrightarrow> a \<notin> dom (bufs st1)"
    by blast
  have fc: "free_calls st' = free_calls st @ (fs0 @ fs1)" using fs0(1) fs1(1) by simp
  from ok show ?case unfolding result_ok_def
  proof (elim disjE conjE exE)
    assume r: "r = data cn" and d: "dom (bufs st1) = dom (bufs st)"
    have e0: "{a. null_data N (inputs nd ! j) \<and> r = Some a} = {}"
      using r cn by (auto simp: null_data_def)
    have fr: "fresh_results N nd (j # js) rs = fresh_results N nd js rs1"
      unfolding rs fresh_results_Cons e0 by simp
    have "\<forall>a. Some a \<in> set (fs0 @ fs1) \<longrightarrow> a \<notin> dom (bufs st)"
      using fs0(2) fs1(2) d by auto
    then show ?thesis using ih fr d fc rs by auto
  next
    fix a assume dn: "data cn = None" and r: "r = Some a" and a: "a \<notin> dom (bufs st)"
      and d: "dom (bufs st1) = insert a (dom (bufs st))"
    have e1: "{a. null_data N (inputs nd ! j) \<and> r = Some a} = {a}"
      using r cn dn by (auto simp: null_data_def)
    have fr: "fresh_results N nd (j # js) rs = insert a (fresh_results N nd js rs1)"
      unfolding rs fresh_results_Cons e1 by simp
    have "\<forall>a. Some a \<in> set (fs0 @ fs1) \<longrightarrow> a \<notin> dom (bufs st)"
      using fs0(2) fs1(2) d by auto
    moreover have "dom (bufs st') = dom (bufs st) \<union> fresh_results N nd (j # js) rs"
      using ih(3) fr d by auto
    moreover have "fresh_results N nd (j # js) rs \<inter> dom (bufs st) = {}"
      using ih(4) fr d a by auto
    ultimately show ?thesis using ih(1,2) fc rs by auto
  qed
qed

lemma contract_run:
  fixes st :: "'d state"
  assumes C: "\<forall>q nd. N q = Some nd \<longrightarrow> op_contract nd"
  shows "nodes st = N \<Longrightarrow> run_node n st p = Some (Inr (r, st')) \<Longrightarrow>
     nodes st' = N \<and> (\<exists>nd. N p = Some nd \<and> result_ok nd (bufs st) r (bufs st')) \<and>
     (\<exists>fs. free_calls st' = free_calls st @ fs \<and> (\<forall>a. Some a \<in> set fs \<longrightarrow> a \<notin> dom (bufs st)))"
proof (induction n arbitrary: st p r st')
  case 0
  then show ?case by simp
next
  case (Suc n)
  from Suc.prems(2) obtain nd rs st1 h2 where
    nd: "nodes st p = Some nd"
    and ev: "eval_inputs (run_node n) nd [0..<nat (input_count nd)] st = Some (Inr (rs, st1))"
    and op: "fcn nd rs (input_sizes nd) (input_count nd) (data nd) (bufs st1) = Inr (r, h2)"
    and rel: "release_inputs nd rs (st1\<lparr>bufs := h2\<rparr>) = Inr st'"
    by (rule run_node_SucE)
  let ?js = "[0..<nat (input_count nd)]"
  let ?A = "fresh_results N nd ?js rs"
  from eval_inputs_contract[where rec = "run_node n", OF Suc.IH Suc.prems(1) ev]
  obtain fs1 where st1: "nodes st1 = N" and len: "length rs = nat (input_count nd)"
    and d1: "dom (bufs st1) = dom (bufs st) \<union> ?A" and dis: "?A \<inter> dom (bufs st) = {}"
    and fs1: "free_calls st1 = free_calls st @ fs1" "\<forall>a. Some a \<in> set fs1 \<longrightarrow> a \<notin> dom (bufs st)"
    by auto
  from C nd Suc.prems(1) have "op_contract nd" by blast
  with op have ok: "result_ok nd (bufs st1) r h2" unfolding op_contract_def by blast
  let ?F = "map (\<lambda>i. rs ! i) (filter (\<lambda>i. null_data N (inputs nd ! i)) ?js)"
  from release_inputs_effect[OF rel] st1
  have e: "nodes st' = N" "free_calls st' = free_calls st1 @ ?F" "bufs st' = h2 |` (- {a. Some a \<in> set ?F})"
    by simp_all
  have A: "{a. Some a \<in> set ?F} = ?A" using fresh_results_upt[OF len, of N nd] by simp
  have dom': "dom (bufs st') = dom h2 - ?A" using e(3) A by auto
  have frees: "\<forall>a. Some a \<in> set (fs1 @ ?F) \<longrightarrow> a \<notin> dom (bufs st)"
  proof (intro allI impI)
    fix a assume "Some a \<in> set (fs1 @ ?F)"
    then have "Some a \<in> set fs1 \<or> a \<in> ?A" using A by auto
    then show "a \<notin> dom (bufs st)" using fs1(2) dis by auto
  qed
  have fc: "free_calls st' = free_calls st @ (fs1 @ ?F)" using e(2) fs1(1) by simp
  have rok: "result_ok nd (bufs st) r (bufs st')"
    using ok unfolding result_ok_def
  proof (elim disjE conjE exE)
    assume "r = data nd" "dom h2 = dom (bufs st1)"
    then have "r = data nd \<and> dom (bufs st') = dom (bufs st)" using dom' d1 dis by auto
    then show "r = data nd \<and> dom (bufs st') = dom (bufs st) \<or>
      data nd = None \<and> (\<exists>a. r = Some a \<and> a \<notin> dom (bufs st) \<and> dom (bufs st') = insert a (dom (bufs st)))"
      by simp
  next
    fix a assume "data nd = None" "r = Some a" "a \<notin> dom (bufs st1)" "dom h2 = insert a (dom (bufs st1))"
    then have "data nd = None \<and> r = Some a \<and> a \<notin> dom (bufs st) \<and> dom (bufs st') = insert a (dom (bufs st))"
      using dom' d1 dis by auto
    then show "r = data nd \<and> dom (bufs st') = dom (bufs st) \<or>
      data nd = None \<and> (\<exists>a. r = Some a \<and> a \<notin> dom (bufs st) \<and> dom (bufs st') = insert a (dom (bufs st)))"
      by blast
  qed
  have "\<exists>fs. free_calls st' = free_calls st @ fs \<and> (\<forall>a. Some a \<in> set fs \<longrightarrow> a \<notin> dom (bufs st))"
    by (intro exI[of _ "fs1 @ ?F"] conjI fc frees)
  moreover have "\<exists>nd. N p = Some nd \<and> result_ok nd (bufs st) r (bufs st')"
    using nd Suc.prems(1) rok by auto
  ultimately show ?case using e(1) by simp
qed

subsection \<open>What the loops of the operations compute\<close>

lemma for_loop_append:
  "for_loop (xs @ ys) body s =
     (case for_loop xs body s of Inl e \<Rightarrow> Inl e | Inr s' \<Rightarrow> for_loop ys body s')"
  by (induction xs arbitrary: s) (auto split: sum.splits)

lemma for_loop_Suc:
  "for_loop [0..<Suc n] body s =
     (case for_loop [0..<n] body s of Inl e \<Rightarrow> Inl e | Inr s' \<Rightarrow> body n s')"
  by (simp add: for_loop_append split: sum.splits)

text \<open>
  A loop whose step \<open>j\<close> stores a value \<open>v j\<close> at index \<open>j\<close> of the buffer at \<open>d\<close>,
  whatever the earlier steps stored below \<open>j\<close>.
\<close>

lemma pointwise_loop:
  assumes d: "h d = Some ds" and n: "n \<le> length ds"
    and body: "\<And>j ys. j < n \<Longrightarrow> length ys = length ds \<Longrightarrow> \<forall>k\<ge>j. ys ! k = ds ! k \<Longrightarrow>
        body j (h(d \<mapsto> ys)) = Inr (h(d \<mapsto> ys[j := v j]))"
  shows "for_loop [0..<n] body h = Inr (h(d \<mapsto> map v [0..<n] @ drop n ds))"
  using n body
proof (induction n)
  case 0
  have "h(d \<mapsto> ds) = h" using d by (rule map_upd_triv)
  then show ?case by simp
next
  case (Suc n)
  let ?ys = "map v [0..<n] @ drop n ds"
  have n': "n \<le> length ds" using Suc.prems(1) by simp
  have ih: "for_loop [0..<n] body h = Inr (h(d \<mapsto> ?ys))"
  proof (rule Suc.IH[OF n'])
    fix j ys assume "j < n" "length ys = length ds" "\<forall>k\<ge>j. ys ! k = ds ! k"
    then show "body j (h(d \<mapsto> ys)) = Inr (h(d \<mapsto> ys[j := v j]))"
      by (intro Suc.prems(2)) simp_all
  qed
  have len: "length ?ys = length ds" using n' by simp
  have agree: "\<forall>k\<ge>n. ?ys ! k = ds ! k"
    using n' by (auto simp: nth_append)
  have b: "body n (h(d \<mapsto> ?ys)) = Inr (h(d \<mapsto> ?ys[n := v n]))"
    by (rule Suc.prems(2)[OF _ len agree]) simp
  have e: "?ys[n := v n] = map v [0..<Suc n] @ drop (Suc n) ds"
  proof -
    have "drop n ds = ds ! n # drop (Suc n) ds" using Suc.prems(1) by (simp add: Cons_nth_drop_Suc)
    then show ?thesis by (simp add: list_update_append)
  qed
  show ?case by (simp only: for_loop_Suc ih sum.case b e)
qed

text \<open>The loop of \<^verbatim>\<open>sin_fcn\<close> and \<^verbatim>\<open>cosh_fcn\<close>; the input may be the buffer written.\<close>

lemma map_loop:
  assumes a: "h a = Some xs" and d: "h d = Some ds" and n: "n \<le> length xs" "n \<le> length ds"
  shows "for_loop [0..<n] (\<lambda>i h. ebind (rd h (Some a) i) (\<lambda>x. wr h (Some d) i (f x))) h
     = Inr (h(d \<mapsto> map (\<lambda>i. f (xs ! i)) [0..<n] @ drop n ds))"
proof (rule pointwise_loop[where h = h and d = d and ds = ds, OF d n(2)])
  fix j ys assume j: "j < n" and len: "length ys = length ds" and agree: "\<forall>k\<ge>j. ys ! k = ds ! k"
  have "rd (h(d \<mapsto> ys)) (Some a) j = Inr (xs ! j)"
  proof (cases "a = d")
    case True
    then have "xs = ds" using a d by simp
    then show ?thesis using True j n len agree by (simp add: rd_def)
  next
    case False
    then show ?thesis using a j n by (simp add: rd_def)
  qed
  then show "ebind (rd (h(d \<mapsto> ys)) (Some a) j) (\<lambda>x. wr (h(d \<mapsto> ys)) (Some d) j (f x))
     = Inr (h(d \<mapsto> ys[j := f (xs ! j)]))"
    using j n len by (simp add: ebind_def wr_def)
qed

text \<open>The inner loop of \<^verbatim>\<open>sum_fcn\<close> and \<^verbatim>\<open>product_fcn\<close>, for an input other than the accumulator.\<close>

lemma acc_inner_loop:
  assumes i: "i < length ls" "ls ! i = Some a" and ad: "a \<noteq> d"
    and a: "h a = Some xs" and d: "h d = Some ds" and n: "n \<le> length xs" "n \<le> length ds"
  shows "for_loop [0..<n] (\<lambda>j h.
            ebind (idx ls i) (\<lambda>l. ebind (rd h l j) (\<lambda>x. ebind (rd h (Some d) j) (\<lambda>y.
            wr h (Some d) j (f y x))))) h
     = Inr (h(d \<mapsto> map (\<lambda>j. f (ds ! j) (xs ! j)) [0..<n] @ drop n ds))"
proof (rule pointwise_loop[where h = h and d = d and ds = ds, OF d n(2)])
  fix j ys assume j: "j < n" and len: "length ys = length ds" and agree: "\<forall>k\<ge>j. ys ! k = ds ! k"
  have "rd (h(d \<mapsto> ys)) (Some a) j = Inr (xs ! j)" using ad a j n by (simp add: rd_def)
  moreover have "rd (h(d \<mapsto> ys)) (Some d) j = Inr (ds ! j)" using j n len agree by (simp add: rd_def)
  ultimately show "ebind (idx ls i) (\<lambda>l. ebind (rd (h(d \<mapsto> ys)) l j) (\<lambda>x.
       ebind (rd (h(d \<mapsto> ys)) (Some d) j) (\<lambda>y. wr (h(d \<mapsto> ys)) (Some d) j (f y x))))
     = Inr (h(d \<mapsto> ys[j := f (ds ! j) (xs ! j)]))"
    using i j n len by (simp add: ebind_def idx_def wr_def)
qed

text \<open>Both loops of \<^verbatim>\<open>sum_fcn\<close> and \<^verbatim>\<open>product_fcn\<close>.\<close>

lemma acc_loop:
  assumes d: "h d = Some ds" and n: "n \<le> length ds" and k: "k \<le> length ls"
    and inp: "\<forall>i<k. \<exists>a. ls ! i = Some a \<and> a \<noteq> d \<and> h a = Some (X i) \<and> n \<le> length (X i)"
  shows "for_loop [0..<k] (\<lambda>i. for_loop [0..<n] (\<lambda>j h.
            ebind (idx ls i) (\<lambda>l. ebind (rd h l j) (\<lambda>x. ebind (rd h (Some d) j) (\<lambda>y.
            wr h (Some d) j (f y x)))))) h
     = Inr (h(d \<mapsto> map (\<lambda>j. foldl f (ds ! j) (map (\<lambda>i. X i ! j) [0..<k])) [0..<n] @ drop n ds))"
  using k inp
proof (induction k)
  case 0
  have "map (\<lambda>j. ds ! j) [0..<n] = take n ds"
    using n by (simp add: list_eq_iff_nth_eq)
  then have "map (\<lambda>j. ds ! j) [0..<n] @ drop n ds = ds" by simp
  then show ?case using d by (simp add: map_upd_triv)
next
  case (Suc k)
  let ?D = "map (\<lambda>j. foldl f (ds ! j) (map (\<lambda>i. X i ! j) [0..<k])) [0..<n] @ drop n ds"
  let ?h = "h(d \<mapsto> ?D)"
  have ih: "for_loop [0..<k] (\<lambda>i. for_loop [0..<n] (\<lambda>j h.
            ebind (idx ls i) (\<lambda>l. ebind (rd h l j) (\<lambda>x. ebind (rd h (Some d) j) (\<lambda>y.
            wr h (Some d) j (f y x)))))) h = Inr ?h"
  proof (rule Suc.IH)
    show "k \<le> length ls" using Suc.prems(1) by simp
    show "\<forall>i<k. \<exists>a. ls ! i = Some a \<and> a \<noteq> d \<and> h a = Some (X i) \<and> n \<le> length (X i)"
      using Suc.prems(2) by simp
  qed
  from Suc.prems(2) obtain a where a: "ls ! k = Some a" "a \<noteq> d" "h a = Some (X k)" "n \<le> length (X k)"
    by auto
  have lenD: "n \<le> length ?D" using n by simp
  have inner: "for_loop [0..<n] (\<lambda>j h.
            ebind (idx ls k) (\<lambda>l. ebind (rd h l j) (\<lambda>x. ebind (rd h (Some d) j) (\<lambda>y.
            wr h (Some d) j (f y x))))) ?h
     = Inr (?h(d \<mapsto> map (\<lambda>j. f (?D ! j) (X k ! j)) [0..<n] @ drop n ?D))"
    by (rule acc_inner_loop[where a = a]) (use Suc.prems(1) a lenD in simp_all)
  have e: "map (\<lambda>j. f (?D ! j) (X k ! j)) [0..<n] @ drop n ?D
      = map (\<lambda>j. foldl f (ds ! j) (map (\<lambda>i. X i ! j) [0..<Suc k])) [0..<n] @ drop n ds"
    by (auto simp: nth_append)
  show ?case by (simp only: for_loop_Suc ih sum.case inner fun_upd_upd e)
qed

lemma ebind_Inr: "ebind (Inr x) f = f x"
  by (simp add: ebind_def)

lemma idx_0: "idx (x # xs) 0 = Inr x"
  by (simp add: idx_def)

lemma idx_1: "idx (x # y # xs) 1 = Inr y"
  by (simp add: idx_def)

lemma sum_fcn_result:
  assumes "h d = Some ds" and "n \<le> length ds" and "k \<le> length ls"
    and "\<forall>i<k. \<exists>a. ls ! i = Some a \<and> a \<noteq> d \<and> h a = Some (X i) \<and> n \<le> length (X i)"
  shows "sum_fcn ar ls (int n # szs) (int k) (Some d) h =
     Inr (Some d, h(d \<mapsto> map (\<lambda>j. foldl (d_add ar) (ds ! j) (map (\<lambda>i. X i ! j) [0..<k])) [0..<n]
                         @ drop n ds))"
  unfolding sum_fcn_def by (simp only: idx_0 ebind_Inr nat_int acc_loop[OF assms])

lemma product_fcn_sum_fcn: "product_fcn ar = sum_fcn (ar\<lparr>d_add := d_mul ar\<rparr>)"
  by (simp add: fun_eq_iff product_fcn_def sum_fcn_def)

lemma map_fcn_result:
  assumes "ls \<noteq> []" and "ls ! 0 = Some a" and "h a = Some xs" and "h d = Some ds"
    and "n \<le> length xs" and "n \<le> length ds"
  shows "sin_fcn ar ls (int n # szs) k (Some d) h =
           Inr (Some d, h(d \<mapsto> map (\<lambda>i. d_sin ar (xs ! i)) [0..<n] @ drop n ds))"
    and "cosh_fcn ar ls (int n # szs) k (Some d) h =
           Inr (Some d, h(d \<mapsto> map (\<lambda>i. d_cosh ar (xs ! i)) [0..<n] @ drop n ds))"
proof -
  have i: "idx ls 0 = Inr (Some a)" using assms(1,2) by (simp add: idx_def)
  show "sin_fcn ar ls (int n # szs) k (Some d) h =
           Inr (Some d, h(d \<mapsto> map (\<lambda>i. d_sin ar (xs ! i)) [0..<n] @ drop n ds))"
    unfolding sin_fcn_def by (simp only: i idx_0 ebind_Inr nat_int map_loop[OF assms(3-6)])
  show "cosh_fcn ar ls (int n # szs) k (Some d) h =
           Inr (Some d, h(d \<mapsto> map (\<lambda>i. d_cosh ar (xs ! i)) [0..<n] @ drop n ds))"
    unfolding cosh_fcn_def by (simp only: i idx_0 ebind_Inr nat_int map_loop[OF assms(3-6)])
qed

lemma rd_acc:
  assumes "h p = Some xs" and "h d = Some ds" and "k < length xs" and "k = 0 \<longrightarrow> A = ds ! 0"
  shows "rd (h(d \<mapsto> ds[0 := A])) (Some p) k = Inr (xs ! k)"
proof (cases "p = d")
  case True
  then have "xs = ds" using assms(1,2) by simp
  then show ?thesis using True assms(3,4) by (cases k) (simp_all add: rd_def)
next
  case False
  then show ?thesis using assms(1,3) by (simp add: rd_def)
qed

lemma integration_loop:
  assumes v: "h v = Some vs" and b: "h b = Some bs" and d: "h d = Some ds" and ne: "ds \<noteq> []"
    and m: "m \<le> length vs - 1" "m \<le> length bs - 1"
  shows "for_loop [0..<m] (\<lambda>i h.
              ebind (rd h (Some v) i) (\<lambda>v0.
              ebind (rd h (Some v) (i + 1)) (\<lambda>v1.
              ebind (rd h (Some b) (i + 1)) (\<lambda>b1.
              ebind (rd h (Some b) i) (\<lambda>b0.
              ebind (rd h (Some d) 0) (\<lambda>y.
              wr h (Some d) 0
                (d_add ar y
                   (d_mul ar (d_mul ar (d_half ar) (d_add ar v0 v1)) (d_sub ar b1 b0))))))))) h
     = Inr (h(d \<mapsto> ds[0 := foldl (\<lambda>acc i. d_add ar acc (trapezoid ar vs bs i)) (ds ! 0) [0..<m]]))"
  using m
proof (induction m)
  case 0
  have "h(d \<mapsto> ds) = h" using d by (rule map_upd_triv)
  then show ?case by simp
next
  case (Suc m)
  let ?A = "foldl (\<lambda>acc i. d_add ar acc (trapezoid ar vs bs i)) (ds ! 0) [0..<m]"
  let ?h = "h(d \<mapsto> ds[0 := ?A])"
  let ?body = "\<lambda>i h.
              ebind (rd h (Some v) i) (\<lambda>v0.
              ebind (rd h (Some v) (i + 1)) (\<lambda>v1.
              ebind (rd h (Some b) (i + 1)) (\<lambda>b1.
              ebind (rd h (Some b) i) (\<lambda>b0.
              ebind (rd h (Some d) 0) (\<lambda>y.
              wr h (Some d) 0
                (d_add ar y
                   (d_mul ar (d_mul ar (d_half ar) (d_add ar v0 v1)) (d_sub ar b1 b0))))))))"
  have ih: "for_loop [0..<m] ?body h = Inr ?h"
    by (rule Suc.IH) (use Suc.prems in simp_all)
  have lv: "Suc m < length vs" and lb: "Suc m < length bs" using Suc.prems by simp_all
  have A0: "m = 0 \<longrightarrow> ?A = ds ! 0" by simp
  have r1: "rd ?h (Some v) m = Inr (vs ! m)" by (rule rd_acc[OF v d _ A0]) (use lv in simp)
  have r2: "rd ?h (Some v) (m + 1) = Inr (vs ! (m + 1))" by (rule rd_acc[OF v d]) (use lv in simp_all)
  have r3: "rd ?h (Some b) (m + 1) = Inr (bs ! (m + 1))" by (rule rd_acc[OF b d]) (use lb in simp_all)
  have r4: "rd ?h (Some b) m = Inr (bs ! m)" by (rule rd_acc[OF b d _ A0]) (use lb in simp)
  have r5: "rd ?h (Some d) 0 = Inr ?A" using ne by (simp add: rd_def)
  have w: "wr ?h (Some d) 0 x = Inr (h(d \<mapsto> ds[0 := x]))" for x
    using ne by (simp add: wr_def)
  have step: "?body m ?h = Inr (h(d \<mapsto> ds[0 := d_add ar ?A (trapezoid ar vs bs m)]))"
    by (simp only: r1 r2 r3 r4 r5 w ebind_Inr) (simp only: trapezoid_def)
  have e: "d_add ar ?A (trapezoid ar vs bs m)
      = foldl (\<lambda>acc i. d_add ar acc (trapezoid ar vs bs i)) (ds ! 0) [0..<Suc m]"
    by simp
  show ?case by (simp only: for_loop_Suc ih sum.case step e)
qed

lemma integration_fcn_result:
  assumes ls: "ls = Some v # Some b # rest"
    and v: "h v = Some vs" and b: "h b = Some bs" and len: "length vs = n" "length bs = n"
    and d: "h d = Some (x0 # ds)"
  shows "integration_fcn ar ls (int n # szs) k (Some d) h =
     Inr (Some d, h(d \<mapsto> foldl (d_add ar) x0 (map (trapezoid ar vs bs) [0..<n - 1]) # ds))"
proof -
  have m: "nat (int n - 1) = n - 1" by simp
  have ov: "\<not> int n \<le> - 2147483648" by simp
  have loop: "for_loop [0..<n - 1] (\<lambda>i h.
              ebind (rd h (Some v) i) (\<lambda>v0.
              ebind (rd h (Some v) (i + 1)) (\<lambda>v1.
              ebind (rd h (Some b) (i + 1)) (\<lambda>b1.
              ebind (rd h (Some b) i) (\<lambda>b0.
              ebind (rd h (Some d) 0) (\<lambda>y.
              wr h (Some d) 0
                (d_add ar y
                   (d_mul ar (d_mul ar (d_half ar) (d_add ar v0 v1)) (d_sub ar b1 b0))))))))) h
     = Inr (h(d \<mapsto> (x0 # ds)[0 := foldl (\<lambda>acc i. d_add ar acc (trapezoid ar vs bs i)) ((x0 # ds) ! 0) [0..<n - 1]]))"
    by (rule integration_loop[OF v b d]) (use len in simp_all)
  have e: "(x0 # ds)[0 := foldl (\<lambda>acc i. d_add ar acc (trapezoid ar vs bs i)) ((x0 # ds) ! 0) [0..<n - 1]]
     = foldl (d_add ar) x0 (map (trapezoid ar vs bs) [0..<n - 1]) # ds"
    by (simp add: foldl_map)
  show ?thesis
    unfolding integration_fcn_def ls by (simp only: idx_0 idx_1 ebind_Inr m ov if_False loop e)
qed

subsection \<open>One frame of the evaluator\<close>

lemma eval_inputs_length:
  "eval_inputs rec nd js st = Some (Inr (rs, st')) \<Longrightarrow> length rs = length js"
  using eval_inputs_track[where P = "\<lambda>_. True" and Q = "\<lambda>_ _. True" and rec = rec and nd = nd
      and js = js and st = st and rs = rs and st' = st']
  by simp

lemma eval_inputs_nodes:
  "eval_inputs (run_node n) nd js st = Some (Inr (rs, st1)) \<Longrightarrow> nodes st1 = nodes st"
  by (rule eval_inputs_inv[where P = "\<lambda>s. nodes s = nodes st"]) (auto dest: run_node_nodes)

lemma run_node_SucD:
  assumes "run_node (Suc n) st p = Some (Inr (r, st'))" and "nodes st p = Some nd"
    and "eval_inputs (run_node n) nd [0..<nat (input_count nd)] st = Some (Inr (rs, st1))"
  shows "\<exists>h2. fcn nd rs (input_sizes nd) (input_count nd) (data nd) (bufs st1) = Inr (r, h2) \<and>
     release_inputs nd rs (st1\<lparr>bufs := h2\<rparr>) = Inr st'"
  using assms by (auto simp: ebind_def split: sum.splits prod.splits)

lemma release_keeps:
  assumes "release_inputs nd rs st = Inr st'"
    and "\<forall>i<nat (input_count nd). null_data (nodes st) (inputs nd ! i) \<longrightarrow> rs ! i \<noteq> Some d"
  shows "bufs st' d = bufs st d"
proof -
  let ?F = "map (\<lambda>i. rs ! i) (filter (\<lambda>i. null_data (nodes st) (inputs nd ! i)) [0..<nat (input_count nd)])"
  have "Some d \<notin> set ?F" using assms(2) by auto
  moreover have "bufs st' = bufs st |` (- {a. Some a \<in> set ?F})"
    using release_inputs_effect[OF assms(1)] by simp
  ultimately show ?thesis by (simp add: restrict_map_def)
qed

lemma run_node_Inr_node: "run_node n st c = Some (Inr (r, st')) \<Longrightarrow> nodes st c \<noteq> None"
  by (cases n) (auto split: option.splits)

lemma eval_inputs_children:
  fixes st :: "'d state"
  assumes "eval_inputs (run_node n) nd [0..<k] st = Some (Inr (rs, st1))"
  shows "\<forall>i<k. i < length (inputs nd) \<and> nodes st (inputs nd ! i) \<noteq> None"
proof -
  have "(nodes st1 = nodes st) \<and> length rs = length [0..<k] \<and>
     (\<forall>i<length [0..<k]. [0..<k] ! i < length (inputs nd) \<and>
        nodes st (inputs nd ! ([0..<k] ! i)) \<noteq> None)"
  proof (rule eval_inputs_track[where P = "\<lambda>s :: 'd state. nodes s = nodes st"
          and Q = "\<lambda>c r. nodes st c \<noteq> None", OF _ _ assms])
    fix s s' :: "'d state" and c r
    assume "nodes s = nodes st" "run_node n s c = Some (Inr (r, s'))"
    then show "nodes s' = nodes st \<and> nodes st c \<noteq> None"
      using run_node_nodes[of n s c r s'] run_node_Inr_node[of n s c r s'] by simp
  qed simp
  then show ?thesis by simp
qed

lemma release_inputs_noop:
  assumes "\<forall>i<nat (input_count nd). i < length (inputs nd) \<and> nodes st (inputs nd ! i) \<noteq> None
      \<and> \<not> null_data (nodes st) (inputs nd ! i)"
  shows "release_inputs nd rs st = Inr st"
proof -
  have "for_loop js (release_step nd rs) st = Inr st" if "set js \<subseteq> {0..<nat (input_count nd)}" for js
    using that
  proof (induction js)
    case Nil
    then show ?case by simp
  next
    case (Cons j js)
    then have "j < nat (input_count nd)" by simp
    with assms have "release_step nd rs j st = Inr st"
      by (auto simp: release_step_def idx_def ebind_def null_data_def split: option.splits)
    then show ?case using Cons by simp
  qed
  then show ?thesis unfolding release_inputs_def by simp
qed

subsection \<open>The example graphs, evaluated\<close>

lemmas eval_defs = leaf_node_def input_fcn_def ebind_def idx_def release_inputs_def
  release_step_def free_buf_def rd_def wr_def real_arith_def upt_rec

lemma ex_sum_run:
  "run_node 2 ex_sum 0 = Some (Inr (Some 30, ex_sum\<lparr>bufs := (bufs ex_sum)(30 \<mapsto> [4, 6])\<rparr>))"
  by (simp add: ex_sum_def numeral_2_eq_2 sum_fcn_def eval_defs)

lemma ex_sum_edges: "edges (nodes ex_sum) = {(1, 0), (2, 0)}"
  by (auto simp: edges_def ex_sum_def children_def leaf_node_def split: if_splits)

lemma ex_sum_acyclic: "acyclic (edges (nodes ex_sum))"
  unfolding ex_sum_edges by (rule acyclicI_order[where f = id]) auto

lemma ex_sum_finite: "finite (dom (nodes ex_sum))"
  by (simp add: ex_sum_def)

lemma ex_sum_depth: "depth_le 2 (nodes ex_sum) 0"
  by (simp add: numeral_2_eq_2 ex_sum_def children_def leaf_node_def)

lemma ex_fresh_run: "run_node 2 ex_fresh 0 = Some (Inr (Some 30, ex_fresh_after))"
  by (simp add: ex_fresh_def ex_fresh_after_def numeral_2_eq_2 sum_fcn_def ex_alloc_fcn_def
      eval_defs fun_eq_iff)

lemma ex_null_input_run:
  "run_node 2 ex_null_input 0 = Some (Inr (Some 10, ex_null_input\<lparr>free_calls := [None]\<rparr>))"
  by (simp add: ex_null_input_def numeral_2_eq_2 eval_defs)

lemma ex_null_parent_run:
  "run_node 2 ex_null_parent 0 = Some (Inr (None, ex_null_parent))"
  by (simp add: ex_null_parent_def numeral_2_eq_2 eval_defs)

lemma ex_fresh_contract: "\<forall>q c. nodes ex_fresh q = Some c \<longrightarrow> op_contract c"
proof (intro allI impI)
  fix q c assume "nodes ex_fresh q = Some c"
  then consider "c = \<lparr>inputs = [1, 2], input_sizes = [1, 1], input_count = 2,
                        fcn = sum_fcn real_arith, data = Some 30\<rparr>"
    | "c = leaf_node (Some 10)"
    | "c = \<lparr>inputs = [], input_sizes = [], input_count = 0,
                        fcn = ex_alloc_fcn 40 [7], data = None\<rparr>"
    by (auto simp: ex_fresh_def split: if_splits)
  then show "op_contract c"
  proof cases
    case 1
    then show ?thesis
      unfolding op_contract_def result_ok_def using sum_fcn_returns_data[of real_arith] by auto
  next
    case 2
    then show ?thesis by (simp add: op_contract_def result_ok_def leaf_node_def input_fcn_def)
  next
    case 3
    then show ?thesis
      by (auto simp: op_contract_def result_ok_def ex_alloc_fcn_def split: option.splits)
  qed
qed

lemma ex_null_input_builtin:
  "\<forall>q nd. nodes ex_null_input q = Some nd \<longrightarrow> builtin real_arith (fcn nd)"
  by (auto simp: ex_null_input_def builtin_def leaf_node_def split: if_splits)

lemma ex_sin_run:
  "run_node 2 ex_sin_cosh 0 = Some (Inr (Some 30, ex_sin_cosh\<lparr>bufs := (bufs ex_sin_cosh)(30 \<mapsto> [0, 0])\<rparr>))"
  by (simp add: ex_sin_cosh_def numeral_2_eq_2 sin_fcn_def eval_defs)

lemma ex_cosh_run:
  "run_node 2 ex_sin_cosh 1 = Some (Inr (Some 31, ex_sin_cosh\<lparr>bufs := (bufs ex_sin_cosh)(31 \<mapsto> [1])\<rparr>))"
  by (simp add: ex_sin_cosh_def numeral_2_eq_2 cosh_fcn_def eval_defs)

section \<open>The claims\<close>

text \<open>
  Claim C1. Take a call of \<^verbatim>\<open>run_node\<close> that returns, with \<open>rs\<close> the results of the
  inputs and \<open>h2\<close> the heap that the node's operation leaves.

  \<^item> After the operation, \<^verbatim>\<open>free\<close> is called on the result of input \<open>i\<close> exactly when
    the \<^verbatim>\<open>data\<close> field of input node \<open>i\<close> is null, in the order of the inputs; the
    blocks passed to \<^verbatim>\<open>free\<close> are deallocated and every other block is as the
    operation left it.
  \<^item> When the operations of the graph keep to the ownership protocol, a buffer that
    is the \<^verbatim>\<open>data\<close> of some node and is allocated before the call is never passed to
    \<^verbatim>\<open>free\<close> during the call, by this frame or a deeper one, and is still allocated
    when the call returns.
\<close>

theorem release_policy:
  fixes st :: "'d state"
  assumes "run_node (Suc n) st p = Some (Inr (r, st'))"
  shows "\<exists>nd rs st1 h2.
      nodes st p = Some nd \<and>
      eval_inputs (run_node n) nd [0..<nat (input_count nd)] st = Some (Inr (rs, st1)) \<and>
      fcn nd rs (input_sizes nd) (input_count nd) (data nd) (bufs st1) = Inr (r, h2) \<and>
      (let released = map (\<lambda>i. rs ! i)
             (filter (\<lambda>i. null_data (nodes st) (inputs nd ! i)) [0..<nat (input_count nd)])
       in free_calls st' = free_calls st1 @ released \<and>
          bufs st' = h2 |` (- {a. Some a \<in> set released})) \<and>
      ((\<forall>q c. nodes st q = Some c \<longrightarrow> op_contract c) \<longrightarrow>
         (\<forall>q c d. nodes st q = Some c \<and> data c = Some d \<and> d \<in> dom (bufs st) \<longrightarrow>
            d \<in> dom (bufs st') \<and>
            (\<forall>fs. free_calls st' = free_calls st @ fs \<longrightarrow> Some d \<notin> set fs)))"
proof -
  from assms obtain nd rs st1 h2 where
    nd: "nodes st p = Some nd"
    and ev: "eval_inputs (run_node n) nd [0..<nat (input_count nd)] st = Some (Inr (rs, st1))"
    and op: "fcn nd rs (input_sizes nd) (input_count nd) (data nd) (bufs st1) = Inr (r, h2)"
    and rel: "release_inputs nd rs (st1\<lparr>bufs := h2\<rparr>) = Inr st'"
    by (rule run_node_SucE)
  have n1: "nodes st1 = nodes st"
    by (rule eval_inputs_inv[where P = "\<lambda>s. nodes s = nodes st", OF _ _ ev])
      (auto dest: run_node_nodes)
  let ?F = "map (\<lambda>i. rs ! i)
             (filter (\<lambda>i. null_data (nodes st) (inputs nd ! i)) [0..<nat (input_count nd)])"
  from release_inputs_effect[OF rel] n1
  have e: "free_calls st' = free_calls st1 @ ?F" "bufs st' = h2 |` (- {a. Some a \<in> set ?F})"
    by simp_all
  have pers: "d \<in> dom (bufs st') \<and> (\<forall>fs. free_calls st' = free_calls st @ fs \<longrightarrow> Some d \<notin> set fs)"
    if C: "\<forall>q c. nodes st q = Some c \<longrightarrow> op_contract c"
      and d: "d \<in> dom (bufs st)" for d
  proof -
    from contract_run[OF C refl assms] obtain fs where
      ok: "result_ok nd (bufs st) r (bufs st')"
      and fs: "free_calls st' = free_calls st @ fs" "\<forall>a. Some a \<in> set fs \<longrightarrow> a \<notin> dom (bufs st)"
      using nd by auto
    from ok d have "d \<in> dom (bufs st')" unfolding result_ok_def by auto
    moreover have "\<forall>fs'. free_calls st' = free_calls st @ fs' \<longrightarrow> Some d \<notin> set fs'"
      using fs d by auto
    ultimately show ?thesis by simp
  qed
  show ?thesis
    apply (rule exI[of _ nd], rule exI[of _ rs], rule exI[of _ st1], rule exI[of _ h2])
    using nd ev op e pers by (simp add: Let_def)
qed

theorem release_policy_witness:
  "run_node (Suc 1) ex_fresh 0 = Some (Inr (Some 30, ex_fresh_after))
   \<and> dom (nodes ex_fresh) = {0, 1, 2}
   \<and> op_contract (the (nodes ex_fresh 0)) \<and> op_contract (the (nodes ex_fresh 1))
   \<and> op_contract (the (nodes ex_fresh 2))
   \<and> null_data (nodes ex_fresh) 2 \<and> \<not> null_data (nodes ex_fresh) 1
   \<and> free_calls ex_fresh_after = [Some 40]
   \<and> 10 \<in> dom (bufs ex_fresh_after) \<and> 30 \<in> dom (bufs ex_fresh_after)
   \<and> 40 \<notin> dom (bufs ex_fresh_after)"
proof -
  have run: "run_node (Suc 1) ex_fresh 0 = Some (Inr (Some 30, ex_fresh_after))"
    using ex_fresh_run by (simp add: numeral_2_eq_2)
  from release_policy[OF run] ex_fresh_contract
  have "\<forall>q c d. nodes ex_fresh q = Some c \<and> data c = Some d \<and> d \<in> dom (bufs ex_fresh) \<longrightarrow>
            d \<in> dom (bufs ex_fresh_after)"
    by blast
  moreover have "nodes ex_fresh 1 = Some (leaf_node (Some 10))"
    "data (leaf_node (Some 10) :: real node) = Some 10" "10 \<in> dom (bufs ex_fresh)"
    by (simp_all add: ex_fresh_def leaf_node_def)
  moreover have "\<exists>c. nodes ex_fresh 0 = Some c \<and> data c = Some 30" "30 \<in> dom (bufs ex_fresh)"
    by (simp_all add: ex_fresh_def)
  ultimately have "10 \<in> dom (bufs ex_fresh_after)" "30 \<in> dom (bufs ex_fresh_after)"
    by metis+
  moreover have "null_data (nodes ex_fresh) 2" "\<not> null_data (nodes ex_fresh) 1"
    "free_calls ex_fresh_after = [Some 40]" "40 \<notin> dom (bufs ex_fresh_after)"
    by (simp_all add: ex_fresh_def ex_fresh_after_def null_data_def leaf_node_def)
  moreover have "dom (nodes ex_fresh) = {0, 1, 2}" by (auto simp: ex_fresh_def)
  moreover have "nodes ex_fresh 0 \<noteq> None" "nodes ex_fresh 1 \<noteq> None" "nodes ex_fresh 2 \<noteq> None"
    by (simp_all add: ex_fresh_def)
  then have "op_contract (the (nodes ex_fresh 0))" "op_contract (the (nodes ex_fresh 1))"
    "op_contract (the (nodes ex_fresh 2))"
    using ex_fresh_contract by (metis option.exhaust_sel)+
  ultimately show ?thesis using run by simp
qed

text \<open>
  Claim C2, as stated, fails: \<^verbatim>\<open>run_node\<close> has no error to raise. For the leaf of
  \<open>ex_null_leaf\<close>, whose \<^verbatim>\<open>data\<close> is null and whose operation returns null, the call
  returns normally, with the null pointer.
\<close>

theorem null_result_no_error:
  "nodes ex_null_leaf 0 = Some (leaf_node None)
   \<and> data (leaf_node None :: real node) = None
   \<and> fcn (leaf_node None) [] (input_sizes (leaf_node None :: real node))
        (input_count (leaf_node None :: real node)) None (bufs ex_null_leaf)
      = Inr (None, bufs ex_null_leaf)
   \<and> run_node 1 ex_null_leaf 0 = Some (Inr (None, ex_null_leaf))"
  by (simp add: ex_null_leaf_def eval_defs)

text \<open>
  Claim C2, amended. For a node whose \<^verbatim>\<open>data\<close> is null and whose operation returns
  null, \<^verbatim>\<open>run_node\<close> raises no allocation error: it goes on to the release loop and
  (unless a \<^verbatim>\<open>free\<close> there is undefined) returns the null pointer to its caller. It
  makes no buffer itself: every block allocated when it returns was allocated when
  the operation returned.
\<close>

theorem null_result_returned:
  assumes "nodes st p = Some nd" and "data nd = None"
    and "eval_inputs (run_node n) nd [0..<nat (input_count nd)] st = Some (Inr (rs, st1))"
    and "fcn nd rs (input_sizes nd) (input_count nd) (data nd) (bufs st1) = Inr (None, h2)"
  shows "run_node (Suc n) st p =
           Some (case release_inputs nd rs (st1\<lparr>bufs := h2\<rparr>) of
                   Inl e \<Rightarrow> Inl e | Inr st' \<Rightarrow> Inr (None, st'))
         \<and> (\<forall>st'. release_inputs nd rs (st1\<lparr>bufs := h2\<rparr>) = Inr st' \<longrightarrow> dom (bufs st') \<subseteq> dom h2)"
proof
  show "run_node (Suc n) st p =
           Some (case release_inputs nd rs (st1\<lparr>bufs := h2\<rparr>) of
                   Inl e \<Rightarrow> Inl e | Inr st' \<Rightarrow> Inr (None, st'))"
    using assms by (simp add: ebind_def)
next
  show "\<forall>st'. release_inputs nd rs (st1\<lparr>bufs := h2\<rparr>) = Inr st' \<longrightarrow> dom (bufs st') \<subseteq> dom h2"
    using release_inputs_dom[of nd rs "st1\<lparr>bufs := h2\<rparr>"] by simp
qed

theorem null_result_returned_witness:
  "(\<exists>nd. nodes ex_null_parent 0 = Some nd \<and> data nd = None
      \<and> eval_inputs (run_node 1) nd [0..<nat (input_count nd)] ex_null_parent
          = Some (Inr ([Some 10], ex_null_parent))
      \<and> fcn nd [Some 10] (input_sizes nd) (input_count nd) (data nd) (bufs ex_null_parent)
          = Inr (None, bufs ex_null_parent))
   \<and> run_node (Suc 1) ex_null_parent 0 = Some (Inr (None, ex_null_parent))"
proof -
  define nd :: "real node" where
    "nd = \<lparr>inputs = [1], input_sizes = [2], input_count = 1, fcn = input_fcn, data = None\<rparr>"
  have a: "nodes ex_null_parent 0 = Some nd" by (simp add: ex_null_parent_def nd_def)
  have b: "data nd = None" by (simp add: nd_def)
  have c: "eval_inputs (run_node 1) nd [0..<nat (input_count nd)] ex_null_parent
          = Some (Inr ([Some 10], ex_null_parent))"
    by (simp add: nd_def ex_null_parent_def eval_defs)
  have d: "fcn nd [Some 10] (input_sizes nd) (input_count nd) (data nd) (bufs ex_null_parent)
          = Inr (None, bufs ex_null_parent)"
    by (simp add: nd_def input_fcn_def)
  have e: "release_inputs nd [Some 10] (ex_null_parent\<lparr>bufs := bufs ex_null_parent\<rparr>)
          = Inr ex_null_parent"
    by (simp add: nd_def ex_null_parent_def eval_defs)
  from null_result_returned[OF a b c d] e
  have "run_node (Suc 1) ex_null_parent 0 = Some (Inr (None, ex_null_parent))" by simp
  then show ?thesis using a b c d by blast
qed

text \<open>
  Claim C3. A \<^verbatim>\<open>sum_fcn\<close> node with \<open>k\<close> inputs, \<^verbatim>\<open>sizes[0]\<close> equal to \<open>m\<close> and the
  accumulator \<^verbatim>\<open>data\<close> at \<open>d\<close>. When the inputs have been evaluated, let input \<open>i\<close> have
  returned a buffer other than \<open>d\<close> that holds the \<open>m\<close> values \<open>X i\<close>, and let the
  accumulator hold \<open>m\<close> zeros. Then

  \<^item> the operation returns \<^verbatim>\<open>data\<close> with \<open>data[j] = X 0 ! j + ... + X (k - 1) ! j\<close>
    (added in this order, from \<open>0.0\<close>) for every \<open>j < m\<close>;
  \<^item> a call of \<^verbatim>\<open>run_node\<close> that returns, returns \<^verbatim>\<open>data\<close> with these contents;
  \<^item> when every input owns its buffer, the call does return, and nothing else has
    changed since the inputs were evaluated.
\<close>

theorem sum_node_result:
  fixes st :: "'d state"
  assumes nd: "nodes st p = Some nd" and f: "fcn nd = sum_fcn ar" and k: "input_count nd = int k"
    and sz: "input_sizes nd = int m # szs" and d: "data nd = Some d"
    and ev: "eval_inputs (run_node n) nd [0..<k] st = Some (Inr (rs, st1))"
    and inp: "\<forall>i<k. \<exists>a. rs ! i = Some a \<and> a \<noteq> d \<and> bufs st1 a = Some (X i) \<and> length (X i) = m"
    and z: "bufs st1 d = Some (replicate m (d_zero ar))"
  shows "fcn nd rs (input_sizes nd) (input_count nd) (data nd) (bufs st1)
           = Inr (Some d, (bufs st1)(d \<mapsto> map (\<lambda>j. d_sum ar (map (\<lambda>i. X i ! j) [0..<k])) [0..<m]))
       \<and> (\<forall>r st'. run_node (Suc n) st p = Some (Inr (r, st')) \<longrightarrow>
             r = Some d \<and>
             bufs st' d = Some (map (\<lambda>j. d_sum ar (map (\<lambda>i. X i ! j) [0..<k])) [0..<m]))
       \<and> ((\<forall>i<k. \<not> null_data (nodes st) (inputs nd ! i)) \<longrightarrow>
             run_node (Suc n) st p =
               Some (Inr (Some d, st1\<lparr>bufs := (bufs st1)
                         (d \<mapsto> map (\<lambda>j. d_sum ar (map (\<lambda>i. X i ! j) [0..<k])) [0..<m])\<rparr>)))"
proof -
  let ?S = "map (\<lambda>j. d_sum ar (map (\<lambda>i. X i ! j) [0..<k])) [0..<m]"
  have len: "length rs = k" using eval_inputs_length[OF ev] by simp
  have inp': "\<forall>i<k. \<exists>a. rs ! i = Some a \<and> a \<noteq> d \<and> bufs st1 a = Some (X i) \<and> m \<le> length (X i)"
    using inp by auto
  have s: "sum_fcn ar rs (int m # szs) (int k) (Some d) (bufs st1) =
     Inr (Some d, (bufs st1)(d \<mapsto> map (\<lambda>j. foldl (d_add ar) (replicate m (d_zero ar) ! j)
            (map (\<lambda>i. X i ! j) [0..<k])) [0..<m] @ drop m (replicate m (d_zero ar))))"
    by (rule sum_fcn_result[OF z _ _ inp']) (use len in simp_all)
  have e: "map (\<lambda>j. foldl (d_add ar) (replicate m (d_zero ar) ! j)
            (map (\<lambda>i. X i ! j) [0..<k])) [0..<m] @ drop m (replicate m (d_zero ar)) = ?S"
    by (simp add: d_sum_def)
  have op: "fcn nd rs (input_sizes nd) (input_count nd) (data nd) (bufs st1)
           = Inr (Some d, (bufs st1)(d \<mapsto> ?S))"
    by (simp only: f k sz d s e)
  have ev': "eval_inputs (run_node n) nd [0..<nat (input_count nd)] st = Some (Inr (rs, st1))"
    using ev k by simp
  have part: "r = Some d \<and> bufs st' d = Some ?S"
    if run: "run_node (Suc n) st p = Some (Inr (r, st'))" for r st'
  proof -
    from run_node_SucD[OF run nd ev'] op
    have r: "r = Some d" and rel: "release_inputs nd rs (st1\<lparr>bufs := (bufs st1)(d \<mapsto> ?S)\<rparr>) = Inr st'"
      by auto
    have "bufs st' d = bufs (st1\<lparr>bufs := (bufs st1)(d \<mapsto> ?S)\<rparr>) d"
      by (rule release_keeps[OF rel]) (use inp k in auto)
    then show ?thesis using r by simp
  qed
  have total: "run_node (Suc n) st p = Some (Inr (Some d, st1\<lparr>bufs := (bufs st1)(d \<mapsto> ?S)\<rparr>))"
    if own: "\<forall>i<k. \<not> null_data (nodes st) (inputs nd ! i)"
  proof -
    have n1: "nodes st1 = nodes st" using ev by (rule eval_inputs_nodes)
    have "release_inputs nd rs (st1\<lparr>bufs := (bufs st1)(d \<mapsto> ?S)\<rparr>)
        = Inr (st1\<lparr>bufs := (bufs st1)(d \<mapsto> ?S)\<rparr>)"
      by (rule release_inputs_noop) (use eval_inputs_children[OF ev] own k n1 in simp)
    then show ?thesis using nd ev' op by (simp add: ebind_def)
  qed
  show ?thesis using op part total by blast
qed

theorem sum_node_result_witness:
  "nodes ex_sum 0 = Some \<lparr>inputs = [1, 2], input_sizes = [2, 2], input_count = 2,
                            fcn = sum_fcn real_arith, data = Some 30\<rparr>
   \<and> eval_inputs (run_node 1) \<lparr>inputs = [1, 2], input_sizes = [2, 2], input_count = 2,
                            fcn = sum_fcn real_arith, data = Some 30\<rparr> [0..<2] ex_sum
        = Some (Inr ([Some 10, Some 20], ex_sum))
   \<and> bufs ex_sum 10 = Some [1, 2] \<and> bufs ex_sum 20 = Some [3, 4]
   \<and> bufs ex_sum 30 = Some (replicate 2 (d_zero real_arith))
   \<and> \<not> null_data (nodes ex_sum) 1 \<and> \<not> null_data (nodes ex_sum) 2
   \<and> sum_fcn real_arith [Some 10, Some 20] [2, 2] 2 (Some 30) (bufs ex_sum)
        = Inr (Some 30, (bufs ex_sum)(30 \<mapsto> [1 + 3, 2 + 4]))
   \<and> run_node (Suc 1) ex_sum 0
        = Some (Inr (Some 30, ex_sum\<lparr>bufs := (bufs ex_sum)(30 \<mapsto> [1 + 3, 2 + 4])\<rparr>))"
proof -
  define nd :: "real node" where
    "nd = \<lparr>inputs = [1, 2], input_sizes = [2, 2], input_count = 2,
            fcn = sum_fcn real_arith, data = Some 30\<rparr>"
  define X :: "nat \<Rightarrow> real list" where "X = (\<lambda>i. [[1, 2], [3, 4]] ! i)"
  have a: "nodes ex_sum 0 = Some nd" by (simp add: ex_sum_def nd_def)
  have b: "fcn nd = sum_fcn real_arith" "input_count nd = int 2" "input_sizes nd = int 2 # [2]"
    "data nd = Some 30"
    by (simp_all add: nd_def)
  have c: "eval_inputs (run_node 1) nd [0..<2] ex_sum = Some (Inr ([Some 10, Some 20], ex_sum))"
    by (simp add: nd_def ex_sum_def eval_defs)
  have d: "\<forall>i<2. \<exists>a. [Some 10, Some 20] ! i = Some a \<and> a \<noteq> 30 \<and> bufs ex_sum a = Some (X i)
       \<and> length (X i) = 2"
    by (auto simp: less_2_cases_iff X_def ex_sum_def)
  have e: "bufs ex_sum 30 = Some (replicate 2 (d_zero real_arith))"
    by (simp add: ex_sum_def real_arith_def numeral_2_eq_2)
  have own: "\<not> null_data (nodes ex_sum) 1" "\<not> null_data (nodes ex_sum) 2"
    by (simp_all add: ex_sum_def null_data_def leaf_node_def)
  then have own': "\<forall>i<2. \<not> null_data (nodes ex_sum) (inputs nd ! i)"
    by (auto simp: less_2_cases_iff nd_def)
  have S: "map (\<lambda>j. d_sum real_arith (map (\<lambda>i. X i ! j) [0..<2])) [0..<2] = [1 + 3, 2 + 4]"
    by (simp add: d_sum_def X_def real_arith_def upt_rec)
  note t = sum_node_result[OF a b c d e, unfolded S]
  from t own' have "run_node (Suc 1) ex_sum 0
        = Some (Inr (Some 30, ex_sum\<lparr>bufs := (bufs ex_sum)(30 \<mapsto> [1 + 3, 2 + 4])\<rparr>))"
    by blast
  moreover from t have "sum_fcn real_arith [Some 10, Some 20] [2, 2] 2 (Some 30) (bufs ex_sum)
        = Inr (Some 30, (bufs ex_sum)(30 \<mapsto> [1 + 3, 2 + 4]))"
    using b by simp
  moreover have "bufs ex_sum 10 = Some [1, 2]" "bufs ex_sum 20 = Some [3, 4]"
    by (simp_all add: ex_sum_def)
  ultimately show ?thesis using a c e own unfolding nd_def by simp
qed

text \<open>
  Claim C4. \<^verbatim>\<open>integration_fcn\<close> on the values \<open>vs\<close> (\<^verbatim>\<open>lists[0]\<close>) and the bin edges \<open>bs\<close>
  (\<^verbatim>\<open>lists[1]\<close>), both of length \<open>n\<close> = \<^verbatim>\<open>sizes[0]\<close>, with \<^verbatim>\<open>data[0]\<close> seeded with \<open>0.0\<close>:
  it returns \<^verbatim>\<open>data\<close>, and \<^verbatim>\<open>data[0]\<close> is the sum of the trapezoids
  \<open>0.5 * (vs ! i + vs ! (i + 1)) * (bs ! (i + 1) - bs ! i)\<close> for \<open>i < n - 1\<close>, added up in
  this order; the rest of \<^verbatim>\<open>data\<close> and every other buffer is unchanged. The three
  buffers need not be distinct.

  In particular the values \<open>[0, 1, 0]\<close> over the bins \<open>[0, 1, 2]\<close> give \<open>1\<close>, in every
  arithmetic in which \<open>0 + 1 = 1\<close>, \<open>1 + 0 = 1\<close>, \<open>1 - 0 = 1\<close>, \<open>2 - 1 = 1\<close>,
  \<open>0.5 * 1 = 0.5\<close>, \<open>0 + 0.5 = 0.5\<close> and \<open>0.5 + 0.5 = 1\<close>: these are the operations
  the loop performs, and they are exact for binary doubles as for the reals.
\<close>

theorem integration_trapezoid:
  "(ls = Some v # Some b # rest \<and> h v = Some vs \<and> h b = Some bs \<and> length vs = n \<and> length bs = n
      \<and> h d = Some (d_zero ar # ds) \<longrightarrow>
      integration_fcn ar ls (int n # szs) k (Some d) h =
        Inr (Some d, h(d \<mapsto> d_sum ar (map (trapezoid ar vs bs) [0..<n - 1]) # ds)))
   \<and> (d_add ar (d_zero ar) one = one \<and> d_add ar one (d_zero ar) = one
      \<and> d_sub ar one (d_zero ar) = one \<and> d_sub ar two one = one
      \<and> d_mul ar (d_half ar) one = d_half ar
      \<and> d_add ar (d_zero ar) (d_half ar) = d_half ar \<and> d_add ar (d_half ar) (d_half ar) = one
      \<and> ls = Some v # Some b # rest \<and> h v = Some [d_zero ar, one, d_zero ar]
      \<and> h b = Some [d_zero ar, one, two] \<and> h d = Some (d_zero ar # ds) \<longrightarrow>
      integration_fcn ar ls (3 # szs) k (Some d) h = Inr (Some d, h(d \<mapsto> one # ds)))"
proof (intro conjI impI)
  assume "ls = Some v # Some b # rest \<and> h v = Some vs \<and> h b = Some bs \<and> length vs = n \<and> length bs = n
      \<and> h d = Some (d_zero ar # ds)"
  then show "integration_fcn ar ls (int n # szs) k (Some d) h =
        Inr (Some d, h(d \<mapsto> d_sum ar (map (trapezoid ar vs bs) [0..<n - 1]) # ds))"
    unfolding d_sum_def by (elim conjE) (rule integration_fcn_result)
next
  assume a: "d_add ar (d_zero ar) one = one \<and> d_add ar one (d_zero ar) = one
      \<and> d_sub ar one (d_zero ar) = one \<and> d_sub ar two one = one
      \<and> d_mul ar (d_half ar) one = d_half ar
      \<and> d_add ar (d_zero ar) (d_half ar) = d_half ar \<and> d_add ar (d_half ar) (d_half ar) = one
      \<and> ls = Some v # Some b # rest \<and> h v = Some [d_zero ar, one, d_zero ar]
      \<and> h b = Some [d_zero ar, one, two] \<and> h d = Some (d_zero ar # ds)"
  then have ls: "ls = Some v # Some b # rest" and v: "h v = Some [d_zero ar, one, d_zero ar]"
    and b: "h b = Some [d_zero ar, one, two]" and d: "h d = Some (d_zero ar # ds)"
    by blast+
  have "integration_fcn ar ls (int 3 # szs) k (Some d) h =
      Inr (Some d, h(d \<mapsto>
        foldl (d_add ar) (d_zero ar)
          (map (trapezoid ar [d_zero ar, one, d_zero ar] [d_zero ar, one, two]) [0..<3 - 1]) # ds))"
    by (rule integration_fcn_result[OF ls v b _ _ d]) simp_all
  moreover have "foldl (d_add ar) (d_zero ar)
          (map (trapezoid ar [d_zero ar, one, d_zero ar] [d_zero ar, one, two]) [0..<3 - 1]) = one"
    using a by (simp add: trapezoid_def upt_rec)
  ultimately show "integration_fcn ar ls (3 # szs) k (Some d) h = Inr (Some d, h(d \<mapsto> one # ds))"
    by simp
qed

text \<open>
  In the arithmetic of the reals: the values \<open>[0, 1, 0]\<close> over the bins \<open>[0, 1, 2]\<close> give
  1, and the values \<open>[1, 3]\<close> over the bins \<open>[0, 2]\<close>, one trapezoid, give 4.
\<close>

theorem integration_trapezoid_witness:
  "ex_integration_heap 1 = Some [0, 1, 0] \<and> ex_integration_heap 2 = Some [0, 1, 2]
   \<and> ex_integration_heap 0 = Some [0]
   \<and> integration_fcn real_arith [Some 1, Some 2] [3, 3] 2 (Some 0) ex_integration_heap =
        Inr (Some 0, ex_integration_heap(0 \<mapsto> [1]))
   \<and> length [1, 3 :: real] = 2 \<and> length [0, 2 :: real] = 2
   \<and> ex_trapezoid_heap 1 = Some [1, 3] \<and> ex_trapezoid_heap 2 = Some [0, 2]
   \<and> ex_trapezoid_heap 0 = Some [0]
   \<and> integration_fcn real_arith [Some 1, Some 2] [2, 2] 2 (Some 0) ex_trapezoid_heap =
        Inr (Some 0, ex_trapezoid_heap(0 \<mapsto> [4]))"
proof -
  have g: "ex_integration_heap 1 = Some [0, 1, 0]" "ex_integration_heap 2 = Some [0, 1, 2]"
    "ex_integration_heap 0 = Some [0]"
    by (simp_all add: ex_integration_heap_def)
  have one: "integration_fcn real_arith [Some 1, Some 2] [3, 3] 2 (Some 0) ex_integration_heap =
        Inr (Some 0, ex_integration_heap(0 \<mapsto> [1]))"
    using integration_trapezoid[of "[Some 1, Some 2]" 1 2 "[]" ex_integration_heap _ _ _ 0
        real_arith "[]" _ _ 1 2, THEN conjunct2, of "[3]" 2] g
    by (simp add: real_arith_def)
  have h: "ex_trapezoid_heap 1 = Some [1, 3]" "ex_trapezoid_heap 2 = Some [0, 2]"
    "ex_trapezoid_heap 0 = Some [0]"
    by (simp_all add: ex_trapezoid_heap_def)
  have "integration_fcn real_arith [Some 1, Some 2] (int 2 # [2]) 2 (Some 0) ex_trapezoid_heap =
        Inr (Some 0, ex_trapezoid_heap(0 \<mapsto>
          d_sum real_arith (map (trapezoid real_arith [1, 3] [0, 2]) [0..<2 - 1]) # []))"
    using integration_trapezoid[of "[Some 1, Some 2]" 1 2 "[]" ex_trapezoid_heap "[1, 3]" "[0, 2]" 2 0
        real_arith "[]", THEN conjunct1, of "[2]" 2] h
    by (simp add: real_arith_def)
  moreover have "d_sum real_arith (map (trapezoid real_arith [1, 3] [0, 2]) [0..<2 - 1]) = 4"
    by (simp add: d_sum_def trapezoid_def real_arith_def)
  ultimately show ?thesis using g h one by simp
qed

text \<open>
  Claim C5. A leaf (\<^verbatim>\<open>input_count == 0\<close>) whose operation is \<^verbatim>\<open>input_fcn\<close>: whatever the
  depth allowed, \<^verbatim>\<open>run_node\<close> returns the pointer \<^verbatim>\<open>node->data\<close> itself, and the whole
  state is as before: the buffer is not copied, not written and nothing is allocated
  or freed.
\<close>

theorem input_leaf_identity:
  "nodes st p = Some nd \<Longrightarrow> input_count nd = 0 \<Longrightarrow> fcn nd = input_fcn \<Longrightarrow>
   run_node (Suc n) st p = Some (Inr (data nd, st))"
  by (simp add: input_fcn_def ebind_def release_inputs_def)

theorem input_leaf_identity_witness:
  "nodes ex_leaf 0 = Some (leaf_node (Some 10)) \<and> input_count (leaf_node (Some 10) :: real node) = 0
   \<and> fcn (leaf_node (Some 10) :: real node) = input_fcn
   \<and> run_node (Suc 0) ex_leaf 0 = Some (Inr (Some 10, ex_leaf))
   \<and> bufs ex_leaf 10 = Some [1, 2]"
proof -
  have a: "nodes ex_leaf 0 = Some (leaf_node (Some 10))" by (simp add: ex_leaf_def)
  have b: "input_count (leaf_node (Some 10) :: real node) = 0" by (simp add: leaf_node_def)
  have c: "fcn (leaf_node (Some 10) :: real node) = input_fcn" by (simp add: leaf_node_def)
  have d: "data (leaf_node (Some 10) :: real node) = Some 10" by (simp add: leaf_node_def)
  have e: "bufs ex_leaf 10 = Some [1, 2]" by (simp add: ex_leaf_def)
  show ?thesis using input_leaf_identity[OF a b c, of 0] a b c d e by simp
qed

text \<open>
  Claim C6. A node whose operation is \<^verbatim>\<open>sin_fcn\<close> (or \<^verbatim>\<open>cosh_fcn\<close>), with one input,
  \<^verbatim>\<open>sizes[0]\<close> equal to \<open>m\<close> and a \<^verbatim>\<open>data\<close> buffer of \<open>m\<close> elements at \<open>d\<close>. When the input
  has been evaluated to a buffer that holds the \<open>m\<close> values \<open>xs\<close>, the operation returns
  \<^verbatim>\<open>data\<close> with \<open>data[i] = sin (xs ! i)\<close> (or \<open>cosh (xs ! i)\<close>) for every \<open>i < m\<close>, and the
  call of \<^verbatim>\<open>run_node\<close> returns \<^verbatim>\<open>data\<close> with these contents. Here \<open>m\<close> and the values
  are arbitrary (\<open>m = 0\<close> included), and the input may be the \<^verbatim>\<open>data\<close> buffer itself,
  unless the release loop frees it.
\<close>

theorem sin_cosh_node_result:
  fixes st :: "'d state"
  assumes nd: "nodes st p = Some nd"
    and f: "fcn nd = sin_fcn ar \<and> g = d_sin ar \<or> fcn nd = cosh_fcn ar \<and> g = d_cosh ar"
    and k: "input_count nd = 1" and sz: "input_sizes nd = int m # szs" and d: "data nd = Some d"
    and ev: "eval_inputs (run_node n) nd [0..<1] st = Some (Inr ([Some a], st1))"
    and a: "bufs st1 a = Some xs" "length xs = m" and ds: "bufs st1 d = Some ds" "length ds = m"
    and al: "a = d \<longrightarrow> \<not> null_data (nodes st) (inputs nd ! 0)"
  shows "fcn nd [Some a] (input_sizes nd) (input_count nd) (data nd) (bufs st1)
           = Inr (Some d, (bufs st1)(d \<mapsto> map g xs))
       \<and> (\<exists>st'. run_node (Suc n) st p = Some (Inr (Some d, st')) \<and> bufs st' d = Some (map g xs))"
proof -
  have e: "map (\<lambda>i. g (xs ! i)) [0..<m] @ drop m ds = map g xs"
    using a(2) ds(2) by (simp add: list_eq_iff_nth_eq)
  have op: "fcn nd [Some a] (input_sizes nd) (input_count nd) (data nd) (bufs st1)
           = Inr (Some d, (bufs st1)(d \<mapsto> map g xs))"
    using f
  proof (elim disjE conjE)
    assume fs: "fcn nd = sin_fcn ar" and g: "g = d_sin ar"
    have "sin_fcn ar [Some a] (int m # szs) 1 (Some d) (bufs st1)
        = Inr (Some d, (bufs st1)(d \<mapsto> map (\<lambda>i. d_sin ar (xs ! i)) [0..<m] @ drop m ds))"
      by (rule map_fcn_result(1)[OF _ _ a(1) ds(1)]) (use a(2) ds(2) in simp_all)
    then show ?thesis using e by (simp only: fs g k sz d)
  next
    assume fs: "fcn nd = cosh_fcn ar" and g: "g = d_cosh ar"
    have "cosh_fcn ar [Some a] (int m # szs) 1 (Some d) (bufs st1)
        = Inr (Some d, (bufs st1)(d \<mapsto> map (\<lambda>i. d_cosh ar (xs ! i)) [0..<m] @ drop m ds))"
      by (rule map_fcn_result(2)[OF _ _ a(1) ds(1)]) (use a(2) ds(2) in simp_all)
    then show ?thesis using e by (simp only: fs g k sz d)
  qed
  have n1: "nodes st1 = nodes st" using ev by (rule eval_inputs_nodes)
  have ev': "eval_inputs (run_node n) nd [0..<nat (input_count nd)] st = Some (Inr ([Some a], st1))"
    using ev k by simp
  let ?s2 = "st1\<lparr>bufs := (bufs st1)(d \<mapsto> map g xs)\<rparr>"
  from eval_inputs_children[OF ev]
  obtain cn where c: "0 < length (inputs nd)" "nodes st (inputs nd ! 0) = Some cn" by auto
  have "\<exists>st'. release_inputs nd [Some a] ?s2 = Inr st' \<and> bufs st' d = Some (map g xs)"
  proof (cases "data cn = None")
    case False
    then have "release_inputs nd [Some a] ?s2 = Inr ?s2"
      using c k n1 by (intro release_inputs_noop) (simp add: null_data_def)
    then show ?thesis by simp
  next
    case True
    then have "null_data (nodes st) (inputs nd ! 0)" using c by (simp add: null_data_def)
    with al have ad: "a \<noteq> d" by blast
    then have "release_inputs nd [Some a] ?s2
        = Inr (?s2\<lparr>bufs := (bufs ?s2)(a := None), free_calls := free_calls ?s2 @ [Some a]\<rparr>)"
      using c k n1 True a(1)
      by (simp add: release_inputs_def release_step_def idx_def ebind_def free_buf_def)
    then show ?thesis using ad by simp
  qed
  then obtain st' where rel: "release_inputs nd [Some a] ?s2 = Inr st'"
    and b: "bufs st' d = Some (map g xs)" by blast
  have "run_node (Suc n) st p = Some (Inr (Some d, st'))"
    using nd ev' op rel by (simp add: ebind_def)
  then show ?thesis using op b by blast
qed

theorem sin_cosh_node_result_witness:
  "run_node (Suc 1) ex_sin_cosh 0
     = Some (Inr (Some 30, ex_sin_cosh\<lparr>bufs := (bufs ex_sin_cosh)(30 \<mapsto> [0, 0])\<rparr>))
   \<and> bufs ex_sin_cosh 10 = Some [0, - pi]
   \<and> bufs (ex_sin_cosh\<lparr>bufs := (bufs ex_sin_cosh)(30 \<mapsto> [0, 0])\<rparr>) 30 = Some (map sin [0, - pi])
   \<and> run_node (Suc 1) ex_sin_cosh 1
     = Some (Inr (Some 31, ex_sin_cosh\<lparr>bufs := (bufs ex_sin_cosh)(31 \<mapsto> [1])\<rparr>))
   \<and> bufs ex_sin_cosh 11 = Some [0]
   \<and> bufs (ex_sin_cosh\<lparr>bufs := (bufs ex_sin_cosh)(31 \<mapsto> [1])\<rparr>) 31 = Some (map cosh [0])"
proof -
  define ns :: "real node" where
    "ns = \<lparr>inputs = [2], input_sizes = [2], input_count = 1, fcn = sin_fcn real_arith,
            data = Some 30\<rparr>"
  define nc :: "real node" where
    "nc = \<lparr>inputs = [3], input_sizes = [1], input_count = 1, fcn = cosh_fcn real_arith,
            data = Some 31\<rparr>"
  have s1: "nodes ex_sin_cosh 0 = Some ns" by (simp add: ex_sin_cosh_def ns_def)
  have s2: "fcn ns = sin_fcn real_arith \<and> sin = d_sin real_arith
      \<or> fcn ns = cosh_fcn real_arith \<and> sin = d_cosh real_arith"
    by (simp add: ns_def real_arith_def)
  have s3: "input_count ns = 1" "input_sizes ns = int 2 # []" "data ns = Some 30"
    by (simp_all add: ns_def)
  have s4: "eval_inputs (run_node 1) ns [0..<1] ex_sin_cosh = Some (Inr ([Some 10], ex_sin_cosh))"
    by (simp add: ns_def ex_sin_cosh_def eval_defs)
  have s5: "bufs ex_sin_cosh 10 = Some [0, - pi]" "length [0, - pi :: real] = 2"
    "bufs ex_sin_cosh 30 = Some [5, 5]" "length [5, 5 :: real] = 2"
    "(10::nat) = 30 \<longrightarrow> \<not> null_data (nodes ex_sin_cosh) (inputs ns ! 0)"
    by (simp_all add: ex_sin_cosh_def)
  have runs: "run_node (Suc 1) ex_sin_cosh 0
     = Some (Inr (Some 30, ex_sin_cosh\<lparr>bufs := (bufs ex_sin_cosh)(30 \<mapsto> [0, 0])\<rparr>))"
    using ex_sin_run by (simp add: numeral_2_eq_2)
  from sin_cosh_node_result[OF s1 s2 s3 s4 s5] runs
  have rs: "bufs (ex_sin_cosh\<lparr>bufs := (bufs ex_sin_cosh)(30 \<mapsto> [0, 0])\<rparr>) 30 = Some (map sin [0, - pi])"
    by auto
  have c1: "nodes ex_sin_cosh 1 = Some nc" by (simp add: ex_sin_cosh_def nc_def)
  have c2: "fcn nc = sin_fcn real_arith \<and> cosh = d_sin real_arith
      \<or> fcn nc = cosh_fcn real_arith \<and> cosh = d_cosh real_arith"
    by (simp add: nc_def real_arith_def)
  have c3: "input_count nc = 1" "input_sizes nc = int 1 # []" "data nc = Some 31"
    by (simp_all add: nc_def)
  have c4: "eval_inputs (run_node 1) nc [0..<1] ex_sin_cosh = Some (Inr ([Some 11], ex_sin_cosh))"
    by (simp add: nc_def ex_sin_cosh_def eval_defs)
  have c5: "bufs ex_sin_cosh 11 = Some [0]" "length [0 :: real] = 1"
    "bufs ex_sin_cosh 31 = Some [5]" "length [5 :: real] = 1"
    "(11::nat) = 31 \<longrightarrow> \<not> null_data (nodes ex_sin_cosh) (inputs nc ! 0)"
    by (simp_all add: ex_sin_cosh_def)
  have runc: "run_node (Suc 1) ex_sin_cosh 1
     = Some (Inr (Some 31, ex_sin_cosh\<lparr>bufs := (bufs ex_sin_cosh)(31 \<mapsto> [1])\<rparr>))"
    using ex_cosh_run by (simp add: numeral_2_eq_2)
  from sin_cosh_node_result[OF c1 c2 c3 c4 c5] runc
  have rc: "bufs (ex_sin_cosh\<lparr>bufs := (bufs ex_sin_cosh)(31 \<mapsto> [1])\<rparr>) 31 = Some (map cosh [0])"
    by auto
  show ?thesis using runs rs s5(1) runc rc c5(1) by blast
qed

text \<open>
  Claim C7. \<^verbatim>\<open>product_fcn\<close> with \<open>k\<close> inputs, \<^verbatim>\<open>sizes[0]\<close> equal to \<open>n\<close> and the
  accumulator \<^verbatim>\<open>data\<close> at \<open>d\<close>, which holds \<open>ds\<close>; input \<open>i\<close> is a buffer other than \<open>d\<close>
  that holds \<open>X i\<close>. The operation returns \<^verbatim>\<open>data\<close>, and for every \<open>j < n\<close> it has
  multiplied \<open>data[j]\<close> by \<open>X 0 ! j\<close>, ..., \<open>X (k - 1) ! j\<close> in this order; the elements
  from \<open>n\<close> on are untouched. It is \<^verbatim>\<open>sum_fcn\<close> with the multiplication in the place
  of the addition.
\<close>

theorem product_accumulates:
  assumes "h d = Some ds" and "n \<le> length ds" and "k \<le> length ls"
    and "\<forall>i<k. \<exists>a. ls ! i = Some a \<and> a \<noteq> d \<and> h a = Some (X i) \<and> n \<le> length (X i)"
  shows "product_fcn ar ls (int n # szs) (int k) (Some d) h =
       Inr (Some d, h(d \<mapsto> map (\<lambda>j. foldl (d_mul ar) (ds ! j) (map (\<lambda>i. X i ! j) [0..<k])) [0..<n]
                           @ drop n ds))
     \<and> product_fcn ar = sum_fcn (ar\<lparr>d_add := d_mul ar\<rparr>)"
  using sum_fcn_result[OF assms, of "ar\<lparr>d_add := d_mul ar\<rparr>" szs]
  by (simp add: product_fcn_sum_fcn)

theorem product_accumulates_witness:
  "ex_product_heap 0 = Some [1, 1, 9] \<and> ex_product_heap 1 = Some [2, 3]
   \<and> ex_product_heap 2 = Some [5, - 7]
   \<and> product_fcn real_arith [Some 1, Some 2] [2, 2] 2 (Some 0) ex_product_heap
       = Inr (Some 0, ex_product_heap(0 \<mapsto> [1 * 2 * 5, 1 * 3 * (- 7), 9]))"
proof -
  define X :: "nat \<Rightarrow> real list" where "X = (\<lambda>i. [[2, 3], [5, - 7]] ! i)"
  have h: "ex_product_heap 0 = Some [1, 1, 9]" "ex_product_heap 1 = Some [2, 3]"
    "ex_product_heap 2 = Some [5, - 7]"
    by (simp_all add: ex_product_heap_def)
  have a: "2 \<le> length [1, 1, 9 :: real]" "2 \<le> length [Some (1::nat), Some 2]" by simp_all
  have b: "\<forall>i<2. \<exists>a. [Some 1, Some 2] ! i = Some a \<and> a \<noteq> 0 \<and> ex_product_heap a = Some (X i)
      \<and> 2 \<le> length (X i)"
    by (auto simp: less_2_cases_iff X_def ex_product_heap_def)
  have "map (\<lambda>j. foldl (d_mul real_arith) ([1, 1, 9] ! j) (map (\<lambda>i. X i ! j) [0..<2])) [0..<2]
          @ drop 2 [1, 1, 9]
      = [1 * 2 * 5, 1 * 3 * (- 7), 9]"
    by (simp add: X_def real_arith_def upt_rec)
  with product_accumulates[OF h(1) a b, of real_arith "[2]", THEN conjunct1]
  have "product_fcn real_arith [Some 1, Some 2] [2, 2] 2 (Some 0) ex_product_heap
       = Inr (Some 0, ex_product_heap(0 \<mapsto> [1 * 2 * 5, 1 * 3 * (- 7), 9]))"
    by simp
  then show ?thesis using h by blast
qed

text \<open>
  Claim C8. In a finite graph without a cycle the graph below every node has a depth;
  and when the depth of the graph below \<open>p\<close> is at most \<open>d\<close>, \<^verbatim>\<open>run_node\<close> returns within
  recursion depth \<open>d\<close>, with the same outcome for every larger bound.
\<close>

theorem run_node_terminates:
  assumes "finite (dom (nodes st))" and "acyclic (edges (nodes st))"
  shows "(\<exists>d. depth_le d (nodes st) p) \<and>
     (\<forall>d. depth_le d (nodes st) p \<longrightarrow> (\<exists>res. \<forall>n\<ge>d. run_node n st p = Some res))"
proof
  show "\<exists>d. depth_le d (nodes st) p" using assms by (rule acyclic_depth)
next
  show "\<forall>d. depth_le d (nodes st) p \<longrightarrow> (\<exists>res. \<forall>n\<ge>d. run_node n st p = Some res)"
  proof (intro allI impI)
    fix d assume "depth_le d (nodes st) p"
    then obtain res where res: "run_node d st p = Some res" using depth_le_returns by blast
    then have "\<forall>n\<ge>d. run_node n st p = Some res" using run_node_mono by blast
    then show "\<exists>res. \<forall>n\<ge>d. run_node n st p = Some res" by blast
  qed
qed

theorem run_node_terminates_witness:
  "finite (dom (nodes ex_sum)) \<and> acyclic (edges (nodes ex_sum)) \<and> depth_le 2 (nodes ex_sum) 0
   \<and> (\<exists>res. \<forall>n\<ge>2. run_node n ex_sum 0 = Some res)"
  using run_node_terminates[OF ex_sum_finite ex_sum_acyclic, of 0] ex_sum_finite ex_sum_acyclic
    ex_sum_depth by blast

text \<open>
  Claim C9. A call of \<^verbatim>\<open>run_node\<close> that returns leaves the store of node structures as it
  was: no node is created or destroyed, and every node has the \<^verbatim>\<open>inputs\<close>,
  \<^verbatim>\<open>input_sizes\<close>, \<^verbatim>\<open>input_count\<close>, \<^verbatim>\<open>fcn\<close> and \<^verbatim>\<open>data\<close> pointer it had. Only the buffer
  heap and the log of \<^verbatim>\<open>free\<close> calls can differ.
\<close>

theorem run_node_nodes_unchanged:
  fixes st :: "'d state"
  assumes "run_node n st p = Some (Inr (r, st'))"
  shows "nodes st' = nodes st
     \<and> dom (nodes st') = dom (nodes st)
     \<and> (\<forall>q nd. nodes st q = Some nd \<longrightarrow>
          (\<exists>nd'. nodes st' q = Some nd' \<and> inputs nd' = inputs nd \<and> input_sizes nd' = input_sizes nd
             \<and> input_count nd' = input_count nd \<and> fcn nd' = fcn nd \<and> data nd' = data nd))"
proof -
  have "nodes st' = nodes st" using assms by (rule run_node_nodes)
  then show ?thesis by simp
qed

theorem run_node_nodes_unchanged_witness:
  "run_node 2 ex_sum 0 = Some (Inr (Some 30, ex_sum\<lparr>bufs := (bufs ex_sum)(30 \<mapsto> [4, 6])\<rparr>))
   \<and> nodes (ex_sum\<lparr>bufs := (bufs ex_sum)(30 \<mapsto> [4, 6])\<rparr>) = nodes ex_sum
   \<and> bufs (ex_sum\<lparr>bufs := (bufs ex_sum)(30 \<mapsto> [4, 6])\<rparr>) \<noteq> bufs ex_sum"
proof -
  have "bufs (ex_sum\<lparr>bufs := (bufs ex_sum)(30 \<mapsto> [4, 6])\<rparr>) 30 \<noteq> bufs ex_sum 30"
    by (simp add: ex_sum_def)
  then have "bufs (ex_sum\<lparr>bufs := (bufs ex_sum)(30 \<mapsto> [4, 6])\<rparr>) \<noteq> bufs ex_sum" by metis
  then show ?thesis using run_node_nodes_unchanged[OF ex_sum_run] ex_sum_run by simp
qed

text \<open>
  Claim C10. Every operation of \<^verbatim>\<open>library.c\<close> returns its \<^verbatim>\<open>data\<close> argument and
  allocates and frees nothing. So in a graph whose nodes all use these operations, a
  call of \<^verbatim>\<open>run_node\<close> that returns, returns the \<^verbatim>\<open>data\<close> pointer of the node (the null
  pointer for a node without \<^verbatim>\<open>data\<close>), every \<^verbatim>\<open>free\<close> of the call is given the null
  pointer, and the set of allocated blocks is the same before and after.
\<close>

theorem builtin_graph_results:
  fixes st :: "'d state"
  shows "(builtin ar f \<longrightarrow>
       (\<forall>ls sz k d h r h'. f ls sz k d h = Inr (r, h') \<longrightarrow> r = d \<and> dom h' = dom h)) \<and>
     ((\<forall>q nd. nodes st q = Some nd \<longrightarrow> builtin ar (fcn nd)) \<longrightarrow>
      run_node n st p = Some (Inr (r, st')) \<longrightarrow>
        (\<exists>nd. nodes st p = Some nd \<and> r = data nd) \<and>
        dom (bufs st') = dom (bufs st) \<and>
        (\<exists>fs. free_calls st' = free_calls st @ fs \<and> set fs \<subseteq> {None}))"
proof (intro conjI impI allI)
  fix ls sz k d h r h'
  assume "builtin ar f" "f ls sz k d h = Inr (r, h')"
  then have "r = d \<and> dom h' = dom h" by (rule builtin_returns_data)
  then show "r = d" "dom h' = dom h" by simp_all
next
  assume B: "\<forall>q nd. nodes st q = Some nd \<longrightarrow> builtin ar (fcn nd)"
    and run: "run_node n st p = Some (Inr (r, st'))"
  note b = builtin_run[OF B refl run]
  from b show "\<exists>nd. nodes st p = Some nd \<and> r = data nd" by simp
  from b show "dom (bufs st') = dom (bufs st)" by simp
  from b show "\<exists>fs. free_calls st' = free_calls st @ fs \<and> set fs \<subseteq> {None}" by simp
qed

theorem builtin_graph_results_witness:
  "builtin real_arith (input_fcn :: real operation)
   \<and> dom (nodes ex_null_input) = {0, 1}
   \<and> builtin real_arith (fcn (the (nodes ex_null_input 0)))
   \<and> builtin real_arith (fcn (the (nodes ex_null_input 1)))
   \<and> run_node 2 ex_null_input 0 = Some (Inr (Some 10, ex_null_input\<lparr>free_calls := [None]\<rparr>))
   \<and> (\<exists>nd. nodes ex_null_input 0 = Some nd \<and> Some 10 = data nd)
   \<and> dom (bufs (ex_null_input\<lparr>free_calls := [None]\<rparr>)) = dom (bufs ex_null_input)
   \<and> (\<exists>fs. free_calls (ex_null_input\<lparr>free_calls := [None]\<rparr>) = free_calls ex_null_input @ fs
          \<and> set fs \<subseteq> {None})"
proof -
  have b: "builtin real_arith (input_fcn :: real operation)" by (simp add: builtin_def)
  from builtin_graph_results[of real_arith input_fcn ex_null_input 2 0 "Some 10"
      "ex_null_input\<lparr>free_calls := [None]\<rparr>"]
  have "(\<exists>nd. nodes ex_null_input 0 = Some nd \<and> Some 10 = data nd)
   \<and> dom (bufs (ex_null_input\<lparr>free_calls := [None]\<rparr>)) = dom (bufs ex_null_input)
   \<and> (\<exists>fs. free_calls (ex_null_input\<lparr>free_calls := [None]\<rparr>) = free_calls ex_null_input @ fs
          \<and> set fs \<subseteq> {None})"
    using ex_null_input_builtin ex_null_input_run by blast
  moreover have "dom (nodes ex_null_input) = {0, 1}" by (auto simp: ex_null_input_def)
  moreover have "nodes ex_null_input 0 \<noteq> None" "nodes ex_null_input 1 \<noteq> None"
    by (simp_all add: ex_null_input_def)
  then have "builtin real_arith (fcn (the (nodes ex_null_input 0)))"
    "builtin real_arith (fcn (the (nodes ex_null_input 1)))"
    using ex_null_input_builtin by (metis option.exhaust_sel)+
  ultimately show ?thesis using b ex_null_input_run by simp
qed

end
